theory Spec2Isabelle
  imports Complex_Main
begin

section \<open>Errors raised by the evaluation script\<close>

text \<open>
  Every exception that the modelled part of \<^verbatim>\<open>gpt2.py\<close> can raise is a value of this type;
  a function that may raise returns \<open>error + 'a\<close>, with \<open>Inl\<close> for the exception.
\<close>

datatype error =
    AssertionError
  | ValueError
  | IndexError
  | RuntimeError
  | ZeroDivisionError
  | FileNotFoundError
  | IsADirectoryError
  | NotADirectoryError
  | UnpicklingError
  | EOFError
  | UnicodeDecodeError

section \<open>Command-line arguments\<close>

text \<open>
  The fields of \<^verbatim>\<open>args\<close> that \<^verbatim>\<open>TextDataset\<close> and \<^verbatim>\<open>evaluate\<close> read. Python's unbounded
  integers are \<open>int\<close>.
\<close>

record args =
  model_name_or_path :: string
  eval_data_file :: string
  block_size :: int
  per_gpu_eval_batch_size :: int
  n_gpu :: int
  overwrite_cache :: bool
  benchmark :: bool
  mode :: string
  warmup_steps :: int
  iter :: int

section \<open>Strings and paths\<close>

text \<open>Python's \<^verbatim>\<open>str\<close> of an integer: decimal digits, with a leading minus sign below zero.\<close>

definition digit_char :: "nat \<Rightarrow> char" where
  "digit_char d = ''0123456789'' ! d"

function str_nat :: "nat \<Rightarrow> string" where
  "str_nat n = (if n < 10 then [digit_char n] else str_nat (n div 10) @ [digit_char (n mod 10)])"
  by pat_completeness auto
termination
  by (relation "measure (\<lambda>n. n)") auto

declare str_nat.simps [simp del]

definition str_int :: "int \<Rightarrow> string" where
  "str_int i = (if i < 0 then CHR ''-'' # str_nat (nat (- i)) else str_nat (nat i))"

text \<open>
  \<^verbatim>\<open>os.path.split(p)[1]\<close>: the part of the path after its last slash.
\<close>

definition path_basename :: "string \<Rightarrow> string" where
  "path_basename p = rev (takeWhile (\<lambda>c. c \<noteq> CHR ''/'') (rev p))"

text \<open>
  \<^verbatim>\<open>os.path.dirname(p)\<close> (POSIX): the part up to the last slash, with trailing slashes
  removed unless it consists of slashes only.
\<close>

definition path_dirname :: "string \<Rightarrow> string" where
  "path_dirname p =
     (let hd_part = rev (dropWhile (\<lambda>c. c \<noteq> CHR ''/'') (rev p))
      in if hd_part \<noteq> [] \<and> (\<exists>c \<in> set hd_part. c \<noteq> CHR ''/'')
         then rev (dropWhile (\<lambda>c. c = CHR ''/'') (rev hd_part))
         else hd_part)"

text \<open>
  \<^verbatim>\<open>os.path.join(a, b)\<close> (POSIX) for two components: an absolute second component
  replaces the first.
\<close>

definition path_join :: "string \<Rightarrow> string \<Rightarrow> string" where
  "path_join a b =
     (if b \<noteq> [] \<and> hd b = CHR ''/'' then b
      else if a = [] \<or> last a = CHR ''/'' then a @ b
      else a @ ''/'' @ b)"

text \<open>
  Lines 60-61: the path of the cached features file, from the model identifier, the block
  size and the file name of the corpus.
\<close>

definition cached_features_file :: "string \<Rightarrow> int \<Rightarrow> string \<Rightarrow> string" where
  "cached_features_file model_id bsize filename =
     path_join ''./dataset_cached''
       (model_id @ ''_cached_lm_'' @ str_int bsize @ ''_'' @ filename)"

section \<open>The file system\<close>

text \<open>
  The file system is a map from path strings to nodes. A text file holds its decoded
  contents; a file written by \<^verbatim>\<open>pickle.dump\<close> is represented by the value that
  \<^verbatim>\<open>pickle.load\<close> reads back from it (the byte format is not modelled). A path names a
  node by its string: two different strings that the operating system resolves to one file
  (\<open>a/./b\<close> and \<open>a/b\<close>, links) are different keys of the map, so the map says what is
  stored under a path string and not which strings name the same file; permissions are not
  modelled.
\<close>

datatype node = Directory | Text string | Pickled "int list list"

type_synonym filesystem = "string \<rightharpoonup> node"

definition path_exists :: "filesystem \<Rightarrow> string \<Rightarrow> bool" where
  "path_exists fs p = (fs p \<noteq> None)"

definition isfile :: "filesystem \<Rightarrow> string \<Rightarrow> bool" where
  "isfile fs p = (case fs p of Some (Text _) \<Rightarrow> True | Some (Pickled _) \<Rightarrow> True | _ \<Rightarrow> False)"

text \<open>\<^verbatim>\<open>open(p, encoding="utf-8").read()\<close>; a pickle (protocol 2 and later) starts with the
  byte 0x80, which is not valid UTF-8.\<close>

definition read_text :: "filesystem \<Rightarrow> string \<Rightarrow> error + string" where
  "read_text fs p =
     (case fs p of
        None \<Rightarrow> Inl FileNotFoundError
      | Some Directory \<Rightarrow> Inl IsADirectoryError
      | Some (Pickled _) \<Rightarrow> Inl UnicodeDecodeError
      | Some (Text t) \<Rightarrow> Inr t)"

text \<open>\<^verbatim>\<open>pickle.load(open(p, 'rb'))\<close>; an empty file ends before a pickle has been read.\<close>

definition pickle_load :: "filesystem \<Rightarrow> string \<Rightarrow> error + int list list" where
  "pickle_load fs p =
     (case fs p of
        None \<Rightarrow> Inl FileNotFoundError
      | Some Directory \<Rightarrow> Inl IsADirectoryError
      | Some (Text t) \<Rightarrow> if t = [] then Inl EOFError else Inl UnpicklingError
      | Some (Pickled v) \<Rightarrow> Inr v)"

text \<open>\<^verbatim>\<open>pickle.dump(v, open(p, 'wb'))\<close>: the parent directory must exist, and the path must
  not name a directory.\<close>

definition pickle_dump :: "filesystem \<Rightarrow> string \<Rightarrow> int list list \<Rightarrow> error + filesystem" where
  "pickle_dump fs p v =
     (case fs (path_dirname p) of
        None \<Rightarrow> Inl FileNotFoundError
      | Some Directory \<Rightarrow>
          (case fs p of
             Some Directory \<Rightarrow> Inl IsADirectoryError
           | _ \<Rightarrow> Inr (fs(p \<mapsto> Pickled v)))
      | Some _ \<Rightarrow> Inl NotADirectoryError)"

section \<open>The tokenizer\<close>

text \<open>
  The tokenizer comes from the \<^verbatim>\<open>transformers\<close> library; the three methods that
  \<^verbatim>\<open>TextDataset\<close> calls are parameters of the model.
\<close>

record tokenizer =
  tokenize :: "string \<Rightarrow> string list"
  convert_tokens_to_ids :: "string list \<Rightarrow> int list"
  build_inputs_with_special_tokens :: "int list \<Rightarrow> int list"

section \<open>\<^verbatim>\<open>TextDataset\<close>\<close>

text \<open>
  The slice \<^verbatim>\<open>xs[i:j]\<close> for bounds that are not negative (the loop below starts at 0 and
  only adds a positive block size).
\<close>

definition py_slice :: "'a list \<Rightarrow> int \<Rightarrow> int \<Rightarrow> 'a list" where
  "py_slice xs i j = take (nat j - nat i) (drop (nat i) xs)"

text \<open>
  Lines 76-77: \<^verbatim>\<open>for i in range(0, len(tokenized_text)-block_size+1, block_size)\<close>, appending
  one wrapped window per iteration. The loop variable is \<open>i\<close>; the guard \<open>0 < bsize\<close>
  is the case of a positive step (a negative step gives an empty range here, a zero step
  is refused before the loop is entered).
\<close>

function features_loop ::
  "tokenizer \<Rightarrow> int list \<Rightarrow> int \<Rightarrow> int \<Rightarrow> int list list \<Rightarrow> int list list" where
  "features_loop tok ids bsize i examples =
     (if 0 < bsize \<and> i < int (length ids) - bsize + 1
      then features_loop tok ids bsize (i + bsize)
             (examples @ [build_inputs_with_special_tokens tok (py_slice ids i (i + bsize))])
      else examples)"
  by pat_completeness auto
termination
  by (relation "measure (\<lambda>(tok, ids, bsize, i, examples). nat (int (length ids) - bsize + 1 - i))")
     auto

declare features_loop.simps [simp del]

text \<open>Lines 70-77: the fresh build from the text of the corpus. \<^verbatim>\<open>range\<close> raises
  \<^verbatim>\<open>ValueError\<close> for a zero step.\<close>

definition create_features :: "tokenizer \<Rightarrow> string \<Rightarrow> int \<Rightarrow> error + int list list" where
  "create_features tok text bsize =
     (let tokenized_text = convert_tokens_to_ids tok (tokenize tok text)
      in if bsize = 0 then Inl ValueError
         else Inr (features_loop tok tokenized_text bsize 0 []))"

text \<open>
  \<^verbatim>\<open>TextDataset.__init__\<close> (lines 55-84). The result is \<^verbatim>\<open>self.examples\<close> and the file
  system after the call.
\<close>

definition TextDataset_init ::
  "tokenizer \<Rightarrow> args \<Rightarrow> string \<Rightarrow> int \<Rightarrow> filesystem \<Rightarrow> error + (int list list \<times> filesystem)" where
  "TextDataset_init tok a file_path bsize fs =
     (if \<not> isfile fs file_path then Inl AssertionError
      else
        let filename = path_basename file_path;
            fs1 = (if \<not> path_exists fs ''./dataset_cached''
                   then fs(''./dataset_cached'' \<mapsto> Directory) else fs);
            cached = cached_features_file (model_name_or_path a) bsize filename
        in if path_exists fs1 cached \<and> \<not> overwrite_cache a then
             (case pickle_load fs1 cached of
                Inl e \<Rightarrow> Inl e
              | Inr examples \<Rightarrow> Inr (examples, fs1))
           else
             (case read_text fs1 file_path of
                Inl e \<Rightarrow> Inl e
              | Inr text \<Rightarrow>
                  (case create_features tok text bsize of
                     Inl e \<Rightarrow> Inl e
                   | Inr examples \<Rightarrow>
                       (case pickle_dump fs1 cached examples of
                          Inl e \<Rightarrow> Inl e
                        | Inr fs2 \<Rightarrow> Inr (examples, fs2)))))"

text \<open>Lines 93-95.\<close>

definition load_and_cache_examples ::
  "args \<Rightarrow> tokenizer \<Rightarrow> filesystem \<Rightarrow> error + (int list list \<times> filesystem)" where
  "load_and_cache_examples a tok fs = TextDataset_init tok a (eval_data_file a) (block_size a) fs"

section \<open>Tensors and floating-point values\<close>

text \<open>
  A tensor (a \<^verbatim>\<open>torch.Tensor\<close> or a \<^verbatim>\<open>numpy.ndarray\<close>) is its shape and its elements in
  row-major order.
\<close>

record 'a ndarray =
  shape :: "nat list"
  data :: "'a list"

text \<open>
  Floating-point values are idealised as real numbers (rounding and overflow are not
  modelled), with one more value for the NaN that a mean over no element produces; NaN
  propagates through every arithmetic operation.
\<close>

datatype pyfloat = Finite real | NaN

fun fadd :: "pyfloat \<Rightarrow> pyfloat \<Rightarrow> pyfloat" where
  "fadd (Finite x) (Finite y) = Finite (x + y)"
| "fadd _ _ = NaN"

fun fsub :: "pyfloat \<Rightarrow> pyfloat \<Rightarrow> pyfloat" where
  "fsub (Finite x) (Finite y) = Finite (x - y)"
| "fsub _ _ = NaN"

fun fexp :: "pyfloat \<Rightarrow> pyfloat" where
  "fexp (Finite x) = Finite (exp x)"
| "fexp NaN = NaN"

text \<open>Python's \<^verbatim>\<open>x / n\<close> for a float \<open>x\<close> and an integer \<open>n\<close>: a zero divisor raises, also when
  \<open>x\<close> is NaN.\<close>

fun fdiv_int :: "pyfloat \<Rightarrow> int \<Rightarrow> error + pyfloat" where
  "fdiv_int x n =
     (if n = 0 then Inl ZeroDivisionError
      else Inr (case x of Finite r \<Rightarrow> Finite (r / real_of_int n) | NaN \<Rightarrow> NaN))"

text \<open>Python's \<^verbatim>\<open>x / y\<close> on finite floats.\<close>

definition truediv :: "real \<Rightarrow> real \<Rightarrow> error + real" where
  "truediv x y = (if y = 0 then Inl ZeroDivisionError else Inr (x / y))"

section \<open>The data loader\<close>

text \<open>
  \<^verbatim>\<open>DataLoader(eval_dataset, sampler=SequentialSampler(eval_dataset), batch_size=n)\<close> yields the
  examples in order, \<open>n\<close> at a time, the last batch possibly shorter; it refuses a batch
  size that is not positive.
\<close>

function batches :: "nat \<Rightarrow> 'a list \<Rightarrow> 'a list list" where
  "batches n xs = (if n = 0 \<or> xs = [] then [] else take n xs # batches n (drop n xs))"
  by pat_completeness auto
termination
  by (relation "measure (\<lambda>(n, xs). length xs)") auto

declare batches.simps [simp del]

definition DataLoader :: "int list list \<Rightarrow> int \<Rightarrow> error + int list list list" where
  "DataLoader dataset batch_size =
     (if batch_size \<le> 0 then Inl ValueError else Inr (batches (nat batch_size) dataset))"

text \<open>
  The default collate function stacks the one-dimensional tensors of a batch
  (\<^verbatim>\<open>__getitem__\<close>, line 90) into a tensor of shape (number of examples, length); examples
  of different lengths cannot be stacked.
\<close>

definition collate :: "int list list \<Rightarrow> error + int ndarray" where
  "collate batch =
     (if list_all (\<lambda>b. length b = length (hd batch)) batch
      then Inr \<lparr>shape = [length batch, length (hd batch)], data = concat batch\<rparr>
      else Inl RuntimeError)"

section \<open>The inference session\<close>

text \<open>
  The ONNX Runtime session is a parameter of the model: the names of the inputs the graph
  declares, and \<^verbatim>\<open>session.run(None, ort_inputs)\<close> as a function from the dictionary of input
  tensors to the list of output tensors.
\<close>

record session =
  inputs_names :: "string list"
  run :: "(string \<rightharpoonup> int ndarray) \<Rightarrow> error + real ndarray list"

text \<open>\<^verbatim>\<open>np.expand_dims(x, axis=0)\<close>.\<close>

definition expand_dims0 :: "'a ndarray \<Rightarrow> 'a ndarray" where
  "expand_dims0 x = \<lparr>shape = 1 # shape x, data = data x\<rparr>"

text \<open>
  Lines 130-133: for each declared input name in turn, \<^verbatim>\<open>inputs\<close> is given one more leading
  axis and bound to the name in \<^verbatim>\<open>ort_inputs\<close>. The variable \<^verbatim>\<open>inputs\<close> is reassigned, so
  the next name receives the tensor expanded once more.
\<close>

fun bind_inputs ::
  "string list \<Rightarrow> int ndarray \<Rightarrow> (string \<rightharpoonup> int ndarray) \<Rightarrow> (string \<rightharpoonup> int ndarray)" where
  "bind_inputs [] inputs ort_inputs = ort_inputs"
| "bind_inputs (name # names) inputs ort_inputs =
     (let inputs' = expand_dims0 inputs
      in bind_inputs names inputs' (ort_inputs(name \<mapsto> inputs')))"

section \<open>The language-modelling loss\<close>

text \<open>Line 138, \<^verbatim>\<open>lm_logits[..., :-1, :]\<close>: the last index of the axis before the last is
  dropped. The tensor needs at least two axes.\<close>

definition shift_logits_of :: "real ndarray \<Rightarrow> error + real ndarray" where
  "shift_logits_of lm_logits =
     (case rev (shape lm_logits) of
        v # l # pre \<Rightarrow>
          Inr \<lparr>shape = rev pre @ [l - 1, v],
               data = concat (map (take ((l - 1) * v)) (batches (l * v) (data lm_logits)))\<rparr>
      | _ \<Rightarrow> Inl IndexError)"

text \<open>Line 139, \<^verbatim>\<open>labels[..., 1:]\<close>: the first index of the last axis is dropped.\<close>

definition shift_labels_of :: "int ndarray \<Rightarrow> error + int ndarray" where
  "shift_labels_of labels =
     (case rev (shape labels) of
        l # pre \<Rightarrow>
          Inr \<lparr>shape = rev pre @ [l - 1],
               data = concat (map (drop 1) (batches l (data labels)))\<rparr>
      | _ \<Rightarrow> Inl IndexError)"

text \<open>\<^verbatim>\<open>t.view(-1, t.size(-1))\<close>: the rows of the tensor along its last axis. The row count
  cannot be inferred when the last axis is empty.\<close>

definition view_rows :: "real ndarray \<Rightarrow> error + real list list" where
  "view_rows t =
     (case rev (shape t) of
        v # pre \<Rightarrow> if v = 0 then Inl RuntimeError else Inr (batches v (data t))
      | _ \<Rightarrow> Inl IndexError)"

text \<open>The negative log of the softmax of a row of logits at a class.\<close>

definition nll :: "real list \<Rightarrow> nat \<Rightarrow> real" where
  "nll row t = ln (sum_list (map exp row)) - row ! t"

text \<open>
  \<^verbatim>\<open>CrossEntropyLoss(ignore_index=k)(input, target)\<close> with the default mean reduction, for an
  input of rows of class scores and one target class per row: the rows whose target is
  \<open>k\<close> are left out, every other target must be a class index, and the result is the mean
  of the negative log-likelihoods of the rows that are left (NaN when none is).
\<close>

definition CrossEntropyLoss :: "int \<Rightarrow> real list list \<Rightarrow> int list \<Rightarrow> error + pyfloat" where
  "CrossEntropyLoss ignore_index input target =
     (if length input \<noteq> length target then Inl ValueError
      else
        let scored = filter (\<lambda>(row, t). t \<noteq> ignore_index) (zip input target)
        in if list_ex (\<lambda>(row, t). t < 0 \<or> int (length row) \<le> t) scored then Inl IndexError
           else if scored = [] then Inr NaN
           else Inr (Finite (sum_list (map (\<lambda>(row, t). nll row (nat t)) scored)
                             / real (length scored))))"

text \<open>Lines 138-143.\<close>

definition lm_loss :: "real ndarray \<Rightarrow> int ndarray \<Rightarrow> error + pyfloat" where
  "lm_loss lm_logits labels =
     (case shift_logits_of lm_logits of
        Inl e \<Rightarrow> Inl e
      | Inr shift_logits \<Rightarrow>
          (case shift_labels_of labels of
             Inl e \<Rightarrow> Inl e
           | Inr shift_labels \<Rightarrow>
               (case view_rows shift_logits of
                  Inl e \<Rightarrow> Inl e
                | Inr rows \<Rightarrow> CrossEntropyLoss (- 1) rows (data shift_labels))))"

text \<open>
  Lines 127-143: the loss of one batch, and the dictionary of inputs after the batch has
  been bound. The logits are the first output of the session.
\<close>

definition batch_loss ::
  "session \<Rightarrow> (string \<rightharpoonup> int ndarray) \<Rightarrow> int list list
     \<Rightarrow> error + (pyfloat \<times> (string \<rightharpoonup> int ndarray))" where
  "batch_loss sess ort_inputs batch =
     (case collate batch of
        Inl e \<Rightarrow> Inl e
      | Inr labels \<Rightarrow>
          let ort_inputs' = bind_inputs (inputs_names sess) labels ort_inputs
          in (case run sess ort_inputs' of
                Inl e \<Rightarrow> Inl e
              | Inr predictions \<Rightarrow>
                  (case predictions of
                     [] \<Rightarrow> Inl IndexError
                   | lm_logits # _ \<Rightarrow>
                       (case lm_loss lm_logits labels of
                          Inl e \<Rightarrow> Inl e
                        | Inr loss \<Rightarrow> Inr (loss, ort_inputs')))))"

section \<open>The evaluation loop\<close>

record eval_state =
  eval_loss :: pyfloat
  nb_eval_steps :: int
  total_time :: real
  ort_inputs :: "string \<rightharpoonup> int ndarray"

text \<open>Lines 112-122.\<close>

definition init_state :: eval_state where
  "init_state = \<lparr>eval_loss = Finite 0, nb_eval_steps = 0, total_time = 0, ort_inputs = Map.empty\<rparr>"

text \<open>
  Lines 125-148, one iteration of the loop. \<open>timer k\<close> is the wall-clock time that the two
  readings of \<^verbatim>\<open>timeit.default_timer\<close> measure around step \<open>k\<close>; it is added only when the
  step is not a warm-up step.
\<close>

definition eval_step ::
  "session \<Rightarrow> (int \<Rightarrow> real) \<Rightarrow> args \<Rightarrow> int list list \<Rightarrow> eval_state \<Rightarrow> error + eval_state" where
  "eval_step sess timer a batch st =
     (case batch_loss sess (ort_inputs st) batch of
        Inl e \<Rightarrow> Inl e
      | Inr (loss, ort_inputs') \<Rightarrow>
          Inr \<lparr>eval_loss = fadd (eval_loss st) loss,
               nb_eval_steps = nb_eval_steps st + 1,
               total_time =
                 (if nb_eval_steps st \<ge> warmup_steps a
                  then total_time st + timer (nb_eval_steps st) else total_time st),
               ort_inputs = ort_inputs'\<rparr>)"

text \<open>Lines 124-151: the loop over the batches, with the early exit of lines 150-151.\<close>

fun eval_loop ::
  "session \<Rightarrow> (int \<Rightarrow> real) \<Rightarrow> args \<Rightarrow> int list list list \<Rightarrow> eval_state \<Rightarrow> error + eval_state"
  where
  "eval_loop sess timer a [] st = Inr st"
| "eval_loop sess timer a (batch # rest) st =
     (case eval_step sess timer a batch st of
        Inl e \<Rightarrow> Inl e
      | Inr st' \<Rightarrow>
          if iter a > 0 \<and> nb_eval_steps st' > warmup_steps a + iter a then Inr st'
          else eval_loop sess timer a rest st')"

text \<open>Line 100.\<close>

definition eval_batch_size :: "args \<Rightarrow> int" where
  "eval_batch_size a = per_gpu_eval_batch_size a * max 1 (n_gpu a)"

text \<open>Lines 100-151: the data loader over the dataset and the loop from the initial state.
  Moving tensors to a device and wrapping the model for several devices do not change a
  value and are not modelled.\<close>

definition evaluation_loop ::
  "args \<Rightarrow> session \<Rightarrow> (int \<Rightarrow> real) \<Rightarrow> int list list \<Rightarrow> error + eval_state" where
  "evaluation_loop a sess timer eval_dataset =
     (case DataLoader eval_dataset (eval_batch_size a) of
        Inl e \<Rightarrow> Inl e
      | Inr eval_dataloader \<Rightarrow> eval_loop sess timer a eval_dataloader init_state)"

section \<open>Results of the evaluation\<close>

text \<open>What the run prints or logs.\<close>

datatype message =
    Latency_ms real
  | Throughput real
  | No_performance
  | Perplexity pyfloat
  | Batch_size int
  | Accuracy pyfloat

text \<open>Lines 153-159.\<close>

definition report_performance :: "args \<Rightarrow> eval_state \<Rightarrow> error + message list" where
  "report_performance a st =
     (if nb_eval_steps st \<ge> warmup_steps a then
        (case truediv (real_of_int ((nb_eval_steps st - warmup_steps a) * eval_batch_size a))
                (total_time st) of
           Inl e \<Rightarrow> Inl e
         | Inr perf \<Rightarrow>
             if eval_batch_size a = 1 then
               (case truediv (total_time st) (real_of_int (nb_eval_steps st - warmup_steps a)) of
                  Inl e \<Rightarrow> Inl e
                | Inr t \<Rightarrow> Inr [Latency_ms (t * 1000), Throughput perf])
             else Inr [Throughput perf])
      else Inr [No_performance])"

text \<open>Lines 161-175: the returned value and the messages.\<close>

definition report_accuracy :: "args \<Rightarrow> eval_state \<Rightarrow> error + (pyfloat \<times> message list)" where
  "report_accuracy a st =
     (case fdiv_int (eval_loss st) (nb_eval_steps st) of
        Inl e \<Rightarrow> Inl e
      | Inr mean_loss \<Rightarrow>
          let perplexity = fexp mean_loss
          in Inr (fsub (Finite 100) perplexity,
                  Perplexity perplexity #
                  (if benchmark a \<and> mode a = ''accuracy''
                   then [Batch_size (eval_batch_size a), Accuracy (fsub (Finite 100) perplexity)]
                   else [])))"

text \<open>Lines 100-175: \<^verbatim>\<open>evaluate\<close> once the dataset has been loaded.\<close>

definition evaluate_dataset ::
  "args \<Rightarrow> session \<Rightarrow> (int \<Rightarrow> real) \<Rightarrow> int list list \<Rightarrow> error + (pyfloat \<times> message list)" where
  "evaluate_dataset a sess timer eval_dataset =
     (case evaluation_loop a sess timer eval_dataset of
        Inl e \<Rightarrow> Inl e
      | Inr st \<Rightarrow>
          (case report_performance a st of
             Inl e \<Rightarrow> Inl e
           | Inr perf_messages \<Rightarrow>
               (case report_accuracy a st of
                  Inl e \<Rightarrow> Inl e
                | Inr (accuracy, messages) \<Rightarrow> Inr (accuracy, perf_messages @ messages))))"

text \<open>Lines 97-175: \<^verbatim>\<open>evaluate\<close>, with the file system after the dataset has been loaded.\<close>

definition evaluate ::
  "args \<Rightarrow> session \<Rightarrow> tokenizer \<Rightarrow> (int \<Rightarrow> real) \<Rightarrow> filesystem
     \<Rightarrow> error + (pyfloat \<times> message list \<times> filesystem)" where
  "evaluate a sess tok timer fs =
     (case load_and_cache_examples a tok fs of
        Inl e \<Rightarrow> Inl e
      | Inr (eval_dataset, fs') \<Rightarrow>
          (case evaluate_dataset a sess timer eval_dataset of
             Inl e \<Rightarrow> Inl e
           | Inr (accuracy, messages) \<Rightarrow> Inr (accuracy, messages, fs')))"

section \<open>Per-step quantities used in the statements\<close>

text \<open>
  The loss of a batch when the dictionary of inputs holds nothing before the batch is
  bound. Every step rebinds every declared input name, so this is the loss of the batch at
  any step of the loop (lemma \<open>batch_loss_independent\<close>).
\<close>

definition step_loss :: "session \<Rightarrow> int list list \<Rightarrow> error + pyfloat" where
  "step_loss sess batch = map_sum id fst (batch_loss sess Map.empty batch)"

text \<open>The number of iterations of the loop of lines 124-151 that starts with the step
  counter \<open>nb\<close> and has \<open>len\<close> batches left.\<close>

definition steps_taken :: "args \<Rightarrow> int \<Rightarrow> nat \<Rightarrow> nat" where
  "steps_taken a nb len =
     (if iter a > 0 then min len (nat (max 1 (warmup_steps a + iter a + 1 - nb))) else len)"

text \<open>The value of a float that is not NaN.\<close>

fun real_of :: "pyfloat \<Rightarrow> real" where
  "real_of (Finite r) = r"
| "real_of NaN = 0"

text \<open>The mean of a list of floats: NaN as soon as one of them is.\<close>

definition mean_loss :: "pyfloat list \<Rightarrow> pyfloat" where
  "mean_loss ls =
     (if NaN \<in> set ls then NaN else Finite (sum_list (map real_of ls) / real (length ls)))"

text \<open>The messages of the performance report.\<close>

fun is_performance :: "message \<Rightarrow> bool" where
  "is_performance (Latency_ms _) = True"
| "is_performance (Throughput _) = True"
| "is_performance _ = False"

section \<open>The loss as the specification words it\<close>

text \<open>
  The positions that are scored: position \<open>i\<close> of block \<open>j\<close> of the batch, when the block
  has a token at position \<open>i + 1\<close> and this token is not the ignore index -1.
\<close>

definition scored_positions :: "int list list \<Rightarrow> (nat \<times> nat) list" where
  "scored_positions batch =
     filter (\<lambda>(j, i). batch ! j ! (i + 1) \<noteq> - 1)
       (concat (map (\<lambda>j. map (Pair j) [0 ..< length (batch ! j) - 1]) [0 ..< length batch]))"

text \<open>
  The cross-entropy over the vocabulary of size \<open>v\<close> at one position: \<open>logit j i c\<close> is
  the score of class \<open>c\<close> at position \<open>i\<close> of block \<open>j\<close>, and \<open>t\<close> is the target class.
\<close>

definition position_cross_entropy ::
  "(nat \<Rightarrow> nat \<Rightarrow> nat \<Rightarrow> real) \<Rightarrow> nat \<Rightarrow> nat \<Rightarrow> nat \<Rightarrow> nat \<Rightarrow> real" where
  "position_cross_entropy logit v j i t =
     ln (\<Sum>c\<leftarrow>[0 ..< v]. exp (logit j i c)) - logit j i t"

text \<open>
  The prediction at position \<open>i\<close> is scored against the token at position \<open>i + 1\<close> of the
  same block; the loss is the mean of the cross-entropies at the scored positions.
\<close>

definition shifted_cross_entropy ::
  "(nat \<Rightarrow> nat \<Rightarrow> nat \<Rightarrow> real) \<Rightarrow> nat \<Rightarrow> int list list \<Rightarrow> pyfloat" where
  "shifted_cross_entropy logit v batch =
     (let positions = scored_positions batch
      in if positions = [] then NaN
         else Finite ((\<Sum>(j, i)\<leftarrow>positions.
                         position_cross_entropy logit v j i (nat (batch ! j ! (i + 1))))
                      / real (length positions)))"

section \<open>Concrete inputs\<close>

text \<open>
  A tokenizer that makes one token of every character and numbers it by its code, and
  adds no special tokens (as the GPT-2 tokenizer does for a single sequence).
\<close>

definition char_tokenizer :: tokenizer where
  "char_tokenizer =
     \<lparr>tokenize = map (\<lambda>c. [c]),
      convert_tokens_to_ids = map (\<lambda>t. int (of_char (hd t))),
      build_inputs_with_special_tokens = (\<lambda>ids. ids)\<rparr>"

text \<open>
  A session with one declared input and one output: the logits have the shape of the input
  followed by a vocabulary axis of size \<open>v\<close>, and every score is 0.
\<close>

definition uniform_session :: "nat \<Rightarrow> session" where
  "uniform_session v =
     \<lparr>inputs_names = [''input1''],
      run = (\<lambda>feed. case feed ''input1'' of
                      None \<Rightarrow> Inl RuntimeError
                    | Some x \<Rightarrow>
                        Inr [\<lparr>shape = shape x @ [v],
                              data = concat (map (\<lambda>_. replicate v 0) (data x))\<rparr>])\<rparr>"

text \<open>Arguments of a run with two warm-up steps, an iteration cap of three and batches of
  one block.\<close>

definition capped_args :: args where
  "capped_args =
     \<lparr>model_name_or_path = ''gpt2'', eval_data_file = ''wiki.test.raw'', block_size = 3,
      per_gpu_eval_batch_size = 1, n_gpu = 0, overwrite_cache = False, benchmark = True,
      mode = ''accuracy'', warmup_steps = 2, iter = 3\<rparr>"

text \<open>A clock on which every step takes one second.\<close>

definition unit_timer :: "int \<Rightarrow> real" where
  "unit_timer k = 1"

text \<open>Arguments of a run with one warm-up step and no iteration cap.\<close>

definition one_warmup_args :: args where
  "one_warmup_args = capped_args\<lparr>warmup_steps := 1, iter := 0\<rparr>"

text \<open>Arguments of a run with no warm-up step, no iteration cap and batches of two blocks.\<close>

definition pair_batch_args :: args where
  "pair_batch_args = capped_args\<lparr>per_gpu_eval_batch_size := 2, warmup_steps := 0, iter := 0\<rparr>"

text \<open>Arguments of a run with two warm-up steps and no iteration cap, and of a run with
  no warm-up step and no iteration cap; both with batches of one block.\<close>

definition two_warmup_args :: args where
  "two_warmup_args = capped_args\<lparr>iter := 0\<rparr>"

definition no_warmup_args :: args where
  "no_warmup_args = capped_args\<lparr>warmup_steps := 0, iter := 0\<rparr>"

text \<open>A file system that holds one corpus, and the same file system after the dataset has
  been built from the corpus with the model identifier \<open>gpt2\<close> and block size 3.\<close>

definition corpus_fs :: filesystem where
  "corpus_fs = [''data/wiki.test.raw'' \<mapsto> Text ''abcdefgh'']"

definition cached_fs :: filesystem where
  "cached_fs = corpus_fs
     (''./dataset_cached'' \<mapsto> Directory,
      ''./dataset_cached/gpt2_cached_lm_3_wiki.test.raw''
        \<mapsto> Pickled [[97, 98, 99], [100, 101, 102]])"

text \<open>A tokenizer that finds no token in any text.\<close>

definition silent_tokenizer :: tokenizer where
  "silent_tokenizer = char_tokenizer\<lparr>tokenize := (\<lambda>text. [])\<rparr>"

text \<open>
  A file system with two corpora, one of them with a file name that contains the separator
  of the cache key; the same file system after the dataset has been built from that corpus
  with the model identifier \<open>x\<close> and block size 1; and the arguments of the two runs.
\<close>

definition two_corpora_fs :: filesystem where
  "two_corpora_fs = [''y_cached_lm_2_z'' \<mapsto> Text ''ab'', ''z'' \<mapsto> Text ''cdef'']"

definition two_corpora_cached_fs :: filesystem where
  "two_corpora_cached_fs = two_corpora_fs
     (''./dataset_cached'' \<mapsto> Directory,
      ''./dataset_cached/x_cached_lm_1_y_cached_lm_2_z'' \<mapsto> Pickled [[97], [98]])"

definition model_x_args :: args where
  "model_x_args = capped_args\<lparr>model_name_or_path := ''x''\<rparr>"

definition model_x_1_y_args :: args where
  "model_x_1_y_args = capped_args\<lparr>model_name_or_path := ''x_cached_lm_1_y''\<rparr>"

section \<open>Evaluating the definitions on concrete inputs\<close>

lemma batches_Nil [simp]: "batches n [] = []"
  by (simp add: batches.simps)

lemma batches_Cons [simp]:
  "0 < n \<Longrightarrow> batches n (x # xs) = take n (x # xs) # batches n (drop n (x # xs))"
  by (subst batches.simps) simp

lemma replicate_numeral [simp]: "replicate (numeral k) x = x # replicate (pred_numeral k) x"
  by (subst numeral_eq_Suc) (rule replicate_Suc)

lemmas eval_defs = evaluate_dataset_def evaluation_loop_def DataLoader_def eval_batch_size_def
  eval_step_def batch_loss_def collate_def init_state_def expand_dims0_def
  lm_loss_def shift_logits_of_def shift_labels_of_def view_rows_def CrossEntropyLoss_def nll_def
  report_performance_def report_accuracy_def truediv_def step_loss_def

section \<open>Properties of the data loader\<close>

lemma concat_batches: "0 < n \<Longrightarrow> concat (batches n xs) = xs"
proof (induction n xs rule: batches.induct)
  case (1 n xs)
  show ?case
  proof (cases "xs = []")
    case True
    then show ?thesis by simp
  next
    case False
    with 1 have "concat (batches n (drop n xs)) = drop n xs" by simp
    moreover from False 1(2) have "batches n xs = take n xs # batches n (drop n xs)"
      by (subst batches.simps) simp
    ultimately show ?thesis by simp
  qed
qed

lemma length_batches: "0 < n \<Longrightarrow> length (batches n xs) = (length xs + n - 1) div n"
proof (induction n xs rule: batches.induct)
  case (1 n xs)
  show ?case
  proof (cases "xs = []")
    case True
    with 1(2) show ?thesis by simp
  next
    case False
    with 1 have ih: "length (batches n (drop n xs)) = (length xs - n + n - 1) div n" by simp
    from False 1(2) have unfold: "batches n xs = take n xs # batches n (drop n xs)"
      by (subst batches.simps) simp
    show ?thesis
    proof (cases "n \<le> length xs")
      case True
      with 1(2) have e: "length xs + n - 1 = length xs - 1 + n" by linarith
      have "(length xs - 1 + n) div n = (length xs - 1) div n + 1"
        using 1(2) by simp
      then have "(length xs + n - 1) div n = (length xs - 1) div n + 1"
        by (simp only: e)
      moreover from True 1(2) have "length xs - n + n - 1 = length xs - 1" by linarith
      ultimately show ?thesis using ih unfold by simp
    next
      case short: False
      from False have "0 < length xs" by simp
      with short have b: "n \<le> length xs + n - 1" "length xs + n - 1 < n + n"
        by linarith+
      have "(length xs + n - 1) div n = 1"
        by (rule div_nat_eqI) (use b in simp_all)
      moreover from short have "length xs - n + n - 1 = n - 1" by linarith
      then have "(length xs - n + n - 1) div n = 0" using 1(2) by simp
      ultimately show ?thesis using ih unfold by simp
    qed
  qed
qed

lemma batches_member:
  assumes "b \<in> set (batches n xs)"
  shows "b \<noteq> [] \<and> length b \<le> n \<and> set b \<subseteq> set xs"
  using assms
proof (induction n xs rule: batches.induct)
  case (1 n xs)
  show ?case
  proof (cases "n = 0 \<or> xs = []")
    case True
    with 1(2) show ?thesis by (simp add: batches.simps)
  next
    case False
    then have "batches n xs = take n xs # batches n (drop n xs)"
      by (subst batches.simps) simp
    with 1(2) consider "b = take n xs" | "b \<in> set (batches n (drop n xs))" by auto
    then show ?thesis
    proof cases
      case 1
      from False have "take n xs \<noteq> []" by simp
      moreover have "length (take n xs) \<le> n" by simp
      moreover have "set (take n xs) \<subseteq> set xs" by (rule set_take_subset)
      ultimately show ?thesis using 1 by simp
    next
      case 2
      with "1.IH" False have "b \<noteq> [] \<and> length b \<le> n \<and> set b \<subseteq> set (drop n xs)"
        by blast
      moreover have "set (drop n xs) \<subseteq> set xs" by (rule set_drop_subset)
      ultimately show ?thesis by blast
    qed
  qed
qed

section \<open>Properties of the evaluation loop\<close>

text \<open>
  Binding the inputs overwrites every declared name, so the dictionary that is given to the
  session, and with it the loss of a batch, does not depend on what earlier steps left in
  the dictionary.
\<close>

lemma bind_inputs_apply:
  "bind_inputs names x m k = (if k \<in> set names then bind_inputs names x Map.empty k else m k)"
proof (induction names arbitrary: x m)
  case Nil
  show ?case by simp
next
  case (Cons n ns)
  let ?x = "expand_dims0 x"
  have "bind_inputs (n # ns) x m k = bind_inputs ns ?x (m(n \<mapsto> ?x)) k"
    by (simp add: Let_def)
  also have "\<dots> = (if k \<in> set ns then bind_inputs ns ?x Map.empty k else (m(n \<mapsto> ?x)) k)"
    by (rule Cons.IH)
  finally have l: "bind_inputs (n # ns) x m k =
      (if k \<in> set ns then bind_inputs ns ?x Map.empty k else (m(n \<mapsto> ?x)) k)" .
  have "bind_inputs (n # ns) x Map.empty k = bind_inputs ns ?x (Map.empty(n \<mapsto> ?x)) k"
    by (simp add: Let_def)
  also have "\<dots> = (if k \<in> set ns then bind_inputs ns ?x Map.empty k else (Map.empty(n \<mapsto> ?x)) k)"
    by (rule Cons.IH)
  finally have r: "bind_inputs (n # ns) x Map.empty k =
      (if k \<in> set ns then bind_inputs ns ?x Map.empty k else (Map.empty(n \<mapsto> ?x)) k)" .
  show ?case unfolding l r by auto
qed

lemma bind_inputs_dom: "dom (bind_inputs names x m) = dom m \<union> set names"
  by (induction names arbitrary: x m) (auto simp: Let_def)

lemma bind_inputs_independent:
  assumes "dom m \<subseteq> set names"
  shows "bind_inputs names x m = bind_inputs names x Map.empty"
proof (rule ext)
  fix k
  show "bind_inputs names x m k = bind_inputs names x Map.empty k"
  proof (cases "k \<in> set names")
    case True
    then show ?thesis by (subst bind_inputs_apply) simp
  next
    case False
    with assms have "m k = None" by blast
    moreover have "bind_inputs names x m k = m k"
      using False by (subst bind_inputs_apply) simp
    moreover have "bind_inputs names x Map.empty k = None"
      using False by (subst bind_inputs_apply) simp
    ultimately show ?thesis by simp
  qed
qed

lemma batch_loss_independent:
  "dom m \<subseteq> set (inputs_names sess) \<Longrightarrow> batch_loss sess m batch = batch_loss sess Map.empty batch"
  by (cases "collate batch") (simp_all add: batch_loss_def bind_inputs_independent [of m])

lemma batch_loss_dom:
  "batch_loss sess m batch = Inr (l, m') \<Longrightarrow> dom m' = dom m \<union> set (inputs_names sess)"
proof -
  assume "batch_loss sess m batch = Inr (l, m')"
  then obtain labels where "m' = bind_inputs (inputs_names sess) labels m"
    by (auto simp: batch_loss_def Let_def split: sum.splits list.splits)
  then show ?thesis by (simp only: bind_inputs_dom)
qed


text \<open>One step of the loop: what it returns, and when it returns.\<close>

lemma eval_step_cases:
  assumes "eval_step sess timer a batch st = Inr st'"
  obtains l m' where "batch_loss sess (ort_inputs st) batch = Inr (l, m')"
    and "st' = \<lparr>eval_loss = fadd (eval_loss st) l,
               nb_eval_steps = nb_eval_steps st + 1,
               total_time = (if nb_eval_steps st \<ge> warmup_steps a
                  then total_time st + timer (nb_eval_steps st) else total_time st),
               ort_inputs = m'\<rparr>"
proof (cases "batch_loss sess (ort_inputs st) batch")
  case (Inl e)
  with assms show ?thesis by (simp add: eval_step_def)
next
  case (Inr p)
  obtain l m' where p: "p = (l, m')" by (cases p)
  from assms have "st' = \<lparr>eval_loss = fadd (eval_loss st) l,
               nb_eval_steps = nb_eval_steps st + 1,
               total_time = (if nb_eval_steps st \<ge> warmup_steps a
                  then total_time st + timer (nb_eval_steps st) else total_time st),
               ort_inputs = m'\<rparr>"
    unfolding eval_step_def Inr p by simp
  with Inr p that show ?thesis by blast
qed


lemma eval_step_Inr:
  assumes "eval_step sess timer a batch st = Inr st'"
    and "dom (ort_inputs st) \<subseteq> set (inputs_names sess)"
  shows "\<exists>l. step_loss sess batch = Inr l \<and> eval_loss st' = fadd (eval_loss st) l"
    and "nb_eval_steps st' = nb_eval_steps st + 1"
    and "total_time st' = (if nb_eval_steps st \<ge> warmup_steps a
           then total_time st + timer (nb_eval_steps st) else total_time st)"
    and "dom (ort_inputs st') \<subseteq> set (inputs_names sess)"
proof -
  from assms(1) obtain l m' where bl: "batch_loss sess (ort_inputs st) batch = Inr (l, m')"
    and st': "st' = \<lparr>eval_loss = fadd (eval_loss st) l,
               nb_eval_steps = nb_eval_steps st + 1,
               total_time = (if nb_eval_steps st \<ge> warmup_steps a
                  then total_time st + timer (nb_eval_steps st) else total_time st),
               ort_inputs = m'\<rparr>"
    by (rule eval_step_cases)
  from bl have "batch_loss sess Map.empty batch = Inr (l, m')"
    using batch_loss_independent [OF assms(2), of batch] by simp
  then have "step_loss sess batch = Inr l" by (simp add: step_loss_def)
  moreover have "eval_loss st' = fadd (eval_loss st) l" unfolding st' by simp
  ultimately show "\<exists>l. step_loss sess batch = Inr l \<and> eval_loss st' = fadd (eval_loss st) l"
    by blast
  show "nb_eval_steps st' = nb_eval_steps st + 1" unfolding st' by simp
  show "total_time st' = (if nb_eval_steps st \<ge> warmup_steps a
           then total_time st + timer (nb_eval_steps st) else total_time st)"
    unfolding st' by simp
  have "dom m' = dom (ort_inputs st) \<union> set (inputs_names sess)"
    using bl by (rule batch_loss_dom)
  with assms(2) have "dom m' \<subseteq> set (inputs_names sess)" by blast
  then show "dom (ort_inputs st') \<subseteq> set (inputs_names sess)" unfolding st' by simp
qed

lemma eval_step_total:
  assumes "step_loss sess batch = Inr l"
    and "dom (ort_inputs st) \<subseteq> set (inputs_names sess)"
  shows "\<exists>st'. eval_step sess timer a batch st = Inr st'"
proof -
  from assms(1) obtain m' where "batch_loss sess Map.empty batch = Inr (l, m')"
    by (cases "batch_loss sess Map.empty batch") (auto simp: step_loss_def)
  then have "batch_loss sess (ort_inputs st) batch = Inr (l, m')"
    using batch_loss_independent [OF assms(2), of batch] by simp
  then show ?thesis by (simp add: eval_step_def)
qed


text \<open>The number of steps, one iteration at a time.\<close>

lemma steps_taken_Nil [simp]: "steps_taken a nb 0 = 0"
  by (simp add: steps_taken_def)

lemma steps_taken_stop:
  assumes "iter a > 0" and "nb + 1 > warmup_steps a + iter a"
  shows "steps_taken a nb (Suc len) = 1"
proof -
  from assms have "max 1 (warmup_steps a + iter a + 1 - nb) = 1" by linarith
  with assms(1) show ?thesis by (simp add: steps_taken_def)
qed

lemma steps_taken_continue:
  assumes "\<not> (iter a > 0 \<and> nb + 1 > warmup_steps a + iter a)"
  shows "steps_taken a nb (Suc len) = Suc (steps_taken a (nb + 1) len)"
proof (cases "iter a > 0")
  case False
  then show ?thesis by (simp add: steps_taken_def)
next
  case True
  define x where "x = warmup_steps a + iter a - nb"
  from True assms have x: "1 \<le> x" unfolding x_def by linarith
  have e1: "warmup_steps a + iter a + 1 - nb = x + 1"
    and e2: "warmup_steps a + iter a + 1 - (nb + 1) = x"
    unfolding x_def by linarith+
  have l: "steps_taken a nb (Suc len) = min (Suc len) (nat (max 1 (x + 1)))"
    using True unfolding steps_taken_def e1 by simp
  have r: "steps_taken a (nb + 1) len = min len (nat (max 1 x))"
    using True unfolding steps_taken_def e2 by simp
  from x have "nat (max 1 (x + 1)) = Suc (nat (max 1 x))" by linarith
  then show ?thesis unfolding l r by simp
qed

text \<open>The measured time is summed over the steps that are not warm-up steps.\<close>

lemma sum_timer_step:
  fixes f :: "int \<Rightarrow> real"
  shows "sum f {max n w ..< n + 1} = (if w \<le> n then f n else 0)"
proof (cases "w \<le> n")
  case True
  then have "{max n w ..< n + 1} = {n}" by auto
  with True show ?thesis by simp
next
  case False
  then have "{max n w ..< n + 1} = {}" by auto
  with False show ?thesis by simp
qed

lemma sum_timer_split:
  fixes f :: "int \<Rightarrow> real"
  assumes "n + 1 \<le> n'"
  shows "sum f {max n w ..< n'} = (if w \<le> n then f n else 0) + sum f {max (n + 1) w ..< n'}"
proof (cases "w \<le> n")
  case True
  with assms have "{max n w ..< n'} = insert n {max (n + 1) w ..< n'}" by auto
  moreover have "n \<notin> {max (n + 1) w ..< n'}" by simp
  ultimately show ?thesis using True by simp
next
  case False
  then have "max n w = max (n + 1) w" by simp
  with False show ?thesis by simp
qed


text \<open>
  The loop from any state: if it returns, it has run \<open>steps_taken\<close> steps, summed their
  losses and the times of the steps after the warm-up; and it returns when the steps it
  runs do not raise.
\<close>

lemma eval_loop_cases:
  assumes "eval_loop sess timer a (batch # rest) st = Inr st'"
  obtains (stop) "eval_step sess timer a batch st = Inr st'"
      and "iter a > 0" and "nb_eval_steps st' > warmup_steps a + iter a"
    | (continue) st1 where "eval_step sess timer a batch st = Inr st1"
      and "\<not> (iter a > 0 \<and> nb_eval_steps st1 > warmup_steps a + iter a)"
      and "eval_loop sess timer a rest st1 = Inr st'"
proof (cases "eval_step sess timer a batch st")
  case (Inl e)
  with assms show ?thesis by simp
next
  case (Inr st1)
  show ?thesis
  proof (cases "iter a > 0 \<and> nb_eval_steps st1 > warmup_steps a + iter a")
    case True
    with assms Inr have "st1 = st'" by simp
    with Inr True stop show ?thesis by blast
  next
    case False
    with assms Inr have "eval_loop sess timer a rest st1 = Inr st'" by simp
    with Inr False continue show ?thesis by blast
  qed
qed

lemma eval_loop_Inr:
  assumes "eval_loop sess timer a dl st = Inr st'"
    and "dom (ort_inputs st) \<subseteq> set (inputs_names sess)"
  shows "(\<exists>ls. map (step_loss sess) (take (steps_taken a (nb_eval_steps st) (length dl)) dl)
               = map Inr ls
             \<and> eval_loss st' = foldl fadd (eval_loss st) ls)
       \<and> nb_eval_steps st' = nb_eval_steps st + int (steps_taken a (nb_eval_steps st) (length dl))
       \<and> total_time st' = total_time st
            + sum timer {max (nb_eval_steps st) (warmup_steps a) ..< nb_eval_steps st'}"
  using assms
proof (induction dl arbitrary: st)
  case Nil
  then show ?case by simp
next
  case (Cons batch rest)
  let ?n = "nb_eval_steps st"
  let ?w = "warmup_steps a"
  from Cons.prems(1) show ?case
  proof (cases rule: eval_loop_cases)
    case stop
    from eval_step_Inr [OF stop(1) Cons.prems(2)]
    obtain l where l: "step_loss sess batch = Inr l" "eval_loss st' = fadd (eval_loss st) l"
      and n: "nb_eval_steps st' = ?n + 1"
      and t: "total_time st' = (if ?n \<ge> ?w then total_time st + timer ?n else total_time st)"
      by blast
    from stop(2,3) n have k: "steps_taken a ?n (Suc (length rest)) = 1"
      by (intro steps_taken_stop) simp_all
    have "map (step_loss sess) (take 1 (batch # rest)) = map Inr [l]
        \<and> eval_loss st' = foldl fadd (eval_loss st) [l]"
      using l by simp
    then have "\<exists>ls. map (step_loss sess) (take 1 (batch # rest)) = map Inr ls
        \<and> eval_loss st' = foldl fadd (eval_loss st) ls" by blast
    moreover have "total_time st' = total_time st + sum timer {max ?n ?w ..< nb_eval_steps st'}"
      unfolding n sum_timer_step using t by simp
    ultimately show ?thesis using n k by simp
  next
    case (continue st1)
    from eval_step_Inr [OF continue(1) Cons.prems(2)]
    obtain l where l: "step_loss sess batch = Inr l" "eval_loss st1 = fadd (eval_loss st) l"
      and n: "nb_eval_steps st1 = ?n + 1"
      and t: "total_time st1 = (if ?n \<ge> ?w then total_time st + timer ?n else total_time st)"
      and d: "dom (ort_inputs st1) \<subseteq> set (inputs_names sess)"
      by blast
    let ?m = "steps_taken a (?n + 1) (length rest)"
    from continue(2) n have k: "steps_taken a ?n (Suc (length rest)) = Suc ?m"
      by (intro steps_taken_continue) simp
    from Cons.IH [OF continue(3) d] n
    obtain ls where ls: "map (step_loss sess) (take ?m rest) = map Inr ls"
      "eval_loss st' = foldl fadd (eval_loss st1) ls"
      and n': "nb_eval_steps st' = ?n + 1 + int ?m"
      and t': "total_time st' = total_time st1 + sum timer {max (?n + 1) ?w ..< nb_eval_steps st'}"
      by auto
    have "map (step_loss sess) (take (Suc ?m) (batch # rest)) = map Inr (l # ls)
        \<and> eval_loss st' = foldl fadd (eval_loss st) (l # ls)"
      using l ls by simp
    then have "\<exists>ls. map (step_loss sess) (take (Suc ?m) (batch # rest)) = map Inr ls
        \<and> eval_loss st' = foldl fadd (eval_loss st) ls" by blast
    moreover have "?n + 1 \<le> nb_eval_steps st'" using n' by simp
    then have "sum timer {max ?n ?w ..< nb_eval_steps st'}
        = (if ?w \<le> ?n then timer ?n else 0) + sum timer {max (?n + 1) ?w ..< nb_eval_steps st'}"
      by (rule sum_timer_split)
    then have "total_time st' = total_time st + sum timer {max ?n ?w ..< nb_eval_steps st'}"
      using t t' by simp
    ultimately show ?thesis using n' k by simp
  qed
qed

lemma eval_loop_total:
  assumes "dom (ort_inputs st) \<subseteq> set (inputs_names sess)"
    and "map (step_loss sess) (take (steps_taken a (nb_eval_steps st) (length dl)) dl) = map Inr ls"
  shows "\<exists>st'. eval_loop sess timer a dl st = Inr st'"
  using assms
proof (induction dl arbitrary: st ls)
  case Nil
  then show ?case by simp
next
  case (Cons batch rest)
  let ?n = "nb_eval_steps st"
  have "0 < nat (max 1 (warmup_steps a + iter a + 1 - ?n))" by linarith
  then have "0 < steps_taken a ?n (Suc (length rest))"
    unfolding steps_taken_def by (simp add: min_def)
  then obtain k where k: "steps_taken a ?n (Suc (length rest)) = Suc k"
    by (cases "steps_taken a ?n (Suc (length rest))") simp_all
  with Cons.prems(2) obtain l ls' where l: "step_loss sess batch = Inr l"
    and ls': "map (step_loss sess) (take k rest) = map Inr ls'"
    by (cases ls) auto
  from eval_step_total [OF l Cons.prems(1)]
  obtain st1 where st1: "eval_step sess timer a batch st = Inr st1" by blast
  from eval_step_Inr [OF st1 Cons.prems(1)]
  have n: "nb_eval_steps st1 = ?n + 1"
    and d: "dom (ort_inputs st1) \<subseteq> set (inputs_names sess)" by blast+
  show ?case
  proof (cases "iter a > 0 \<and> nb_eval_steps st1 > warmup_steps a + iter a")
    case True
    with st1 show ?thesis by simp
  next
    case False
    with n have "steps_taken a ?n (Suc (length rest)) = Suc (steps_taken a (?n + 1) (length rest))"
      by (intro steps_taken_continue) simp
    with k have "k = steps_taken a (nb_eval_steps st1) (length rest)" using n by simp
    with ls' Cons.IH [OF d] obtain st' where "eval_loop sess timer a rest st1 = Inr st'"
      by blast
    with st1 False show ?thesis by simp
  qed
qed

section \<open>Sums of floats\<close>

lemma foldl_fadd_NaN: "foldl fadd NaN ls = NaN"
  by (induction ls) simp_all

lemma foldl_fadd_Finite:
  "foldl fadd (Finite s) ls =
     (if NaN \<in> set ls then NaN else Finite (s + sum_list (map real_of ls)))"
proof (induction ls arbitrary: s)
  case Nil
  show ?case by simp
next
  case (Cons l ls)
  show ?case
  proof (cases l)
    case (Finite r)
    with Cons [of "s + r"] show ?thesis by (simp add: add.assoc)
  next
    case NaN
    then show ?thesis by (simp add: foldl_fadd_NaN)
  qed
qed

lemma steps_taken_le: "steps_taken a nb len \<le> len"
  by (simp add: steps_taken_def)

section \<open>The run of the loop from the initial state\<close>

lemma evaluation_loop_Inr:
  assumes "evaluation_loop a sess timer ds = Inr st"
  defines "dl \<equiv> batches (nat (eval_batch_size a)) ds"
  shows "0 < eval_batch_size a"
    and "eval_loop sess timer a dl init_state = Inr st"
    and "nb_eval_steps st = int (steps_taken a 0 (length dl))"
    and "\<exists>ls. length ls = nat (nb_eval_steps st)
           \<and> map (step_loss sess) (take (nat (nb_eval_steps st)) dl) = map Inr ls
           \<and> eval_loss st = foldl fadd (Finite 0) ls"
    and "total_time st = sum timer {max 0 (warmup_steps a) ..< nb_eval_steps st}"
proof -
  from assms(1) show pos: "0 < eval_batch_size a"
    by (cases "eval_batch_size a \<le> 0") (simp_all add: evaluation_loop_def DataLoader_def)
  with assms(1) show loop: "eval_loop sess timer a dl init_state = Inr st"
    by (simp add: evaluation_loop_def DataLoader_def dl_def)
  have d: "dom (ort_inputs init_state) \<subseteq> set (inputs_names sess)"
    by (simp add: init_state_def)
  have i: "nb_eval_steps init_state = 0" "eval_loss init_state = Finite 0"
    "total_time init_state = 0"
    by (simp_all add: init_state_def)
  note r = eval_loop_Inr [OF loop d, unfolded i]
  from r show n: "nb_eval_steps st = int (steps_taken a 0 (length dl))" by simp
  from r obtain ls where ls: "map (step_loss sess) (take (steps_taken a 0 (length dl)) dl) = map Inr ls"
    "eval_loss st = foldl fadd (Finite 0) ls" by blast
  from ls(1) have "length (map Inr ls :: (error + pyfloat) list)
      = length (map (step_loss sess) (take (steps_taken a 0 (length dl)) dl))" by simp
  then have "length ls = steps_taken a 0 (length dl)"
    using steps_taken_le [of a 0 "length dl"] by simp
  with ls n show "\<exists>ls. length ls = nat (nb_eval_steps st)
           \<and> map (step_loss sess) (take (nat (nb_eval_steps st)) dl) = map Inr ls
           \<and> eval_loss st = foldl fadd (Finite 0) ls"
    by auto
  from r show "total_time st = sum timer {max 0 (warmup_steps a) ..< nb_eval_steps st}"
    by simp
qed

lemma report_performance_Inr:
  assumes "total_time st = sum timer {max 0 (warmup_steps a) ..< nb_eval_steps st}"
    and "warmup_steps a \<le> nb_eval_steps st"
    and "total_time st \<noteq> 0"
  shows "report_performance a st =
     Inr (if eval_batch_size a = 1
          then [Latency_ms (total_time st / real_of_int (nb_eval_steps st - warmup_steps a) * 1000),
                Throughput (real_of_int ((nb_eval_steps st - warmup_steps a) * eval_batch_size a)
                            / total_time st)]
          else [Throughput (real_of_int ((nb_eval_steps st - warmup_steps a) * eval_batch_size a)
                            / total_time st)])"
proof -
  have "nb_eval_steps st \<noteq> warmup_steps a"
  proof
    assume "nb_eval_steps st = warmup_steps a"
    then have "{max 0 (warmup_steps a) ..< nb_eval_steps st} = {}" by simp
    with assms(1,3) show False by simp
  qed
  with assms(2,3) show ?thesis
    by (simp add: report_performance_def truediv_def)
qed

lemma report_accuracy_Inr:
  assumes "eval_loss st = foldl fadd (Finite 0) ls"
    and "length ls = nat (nb_eval_steps st)"
    and "1 \<le> nb_eval_steps st"
  shows "report_accuracy a st =
     Inr (fsub (Finite 100) (fexp (mean_loss ls)),
          Perplexity (fexp (mean_loss ls)) #
          (if benchmark a \<and> mode a = ''accuracy''
           then [Batch_size (eval_batch_size a), Accuracy (fsub (Finite 100) (fexp (mean_loss ls)))]
           else []))"
proof -
  from assms(2,3) have n: "real_of_int (nb_eval_steps st) = real (length ls)" by simp
  from assms(3) have nz: "nb_eval_steps st \<noteq> 0" by simp
  have "fdiv_int (eval_loss st) (nb_eval_steps st) = Inr (mean_loss ls)"
    using nz by (simp add: assms(1) foldl_fadd_Finite mean_loss_def n)
  then show ?thesis by (simp add: report_accuracy_def Let_def)
qed

text \<open>\<^verbatim>\<open>evaluate\<close> is the evaluation of the dataset that the constructor returns.\<close>

lemma evaluate_after_load:
  assumes "load_and_cache_examples a tok fs = Inr (eval_dataset, fs')"
  shows "evaluate a sess tok timer fs
    = map_sum id (\<lambda>(accuracy, messages). (accuracy, messages, fs'))
        (evaluate_dataset a sess timer eval_dataset)"
  by (cases "evaluate_dataset a sess timer eval_dataset") (auto simp: evaluate_def assms)

section \<open>Accuracy and perplexity (C1)\<close>

text \<open>
  C1. Take a run whose loop ends in the state \<open>st\<close> after at least one step, and whose
  performance report does not divide by zero (the run has fewer steps than warm-up steps, or
  the measured time is not zero). Let \<open>ls\<close> be the losses of all the steps of the run,
  warm-up steps included. Then \<^verbatim>\<open>evaluate\<close> returns 100 - exp (sum of \<open>ls\<close> / number of
  steps) and logs the perplexity exp (sum of \<open>ls\<close> / number of steps); both are NaN when a
  loss is NaN.
\<close>

theorem evaluate_accuracy:
  assumes "evaluation_loop a sess timer ds = Inr st"
    and "1 \<le> nb_eval_steps st"
    and "nb_eval_steps st < warmup_steps a \<or> total_time st \<noteq> 0"
  shows "\<exists>ls msgs.
      length ls = nat (nb_eval_steps st)
    \<and> map (step_loss sess)
          (take (nat (nb_eval_steps st)) (batches (nat (eval_batch_size a)) ds)) = map Inr ls
    \<and> evaluate_dataset a sess timer ds
        = Inr (if NaN \<in> set ls then NaN
               else Finite (100 - exp (sum_list (map real_of ls) / real (length ls))),
               msgs)
    \<and> Perplexity (if NaN \<in> set ls then NaN
                   else Finite (exp (sum_list (map real_of ls) / real (length ls))))
        \<in> set msgs"
proof -
  from evaluation_loop_Inr(4) [OF assms(1)]
  obtain ls where ls: "length ls = nat (nb_eval_steps st)"
    "map (step_loss sess)
       (take (nat (nb_eval_steps st)) (batches (nat (eval_batch_size a)) ds)) = map Inr ls"
    "eval_loss st = foldl fadd (Finite 0) ls"
    by blast
  note t = evaluation_loop_Inr(5) [OF assms(1)]
  have "\<exists>perf. report_performance a st = Inr perf"
  proof (cases "nb_eval_steps st < warmup_steps a")
    case True
    then show ?thesis by (simp add: report_performance_def)
  next
    case False
    with assms(3) have "warmup_steps a \<le> nb_eval_steps st" "total_time st \<noteq> 0" by simp_all
    from report_performance_Inr [OF t this] show ?thesis by blast
  qed
  then obtain perf where perf: "report_performance a st = Inr perf" by blast
  note acc = report_accuracy_Inr [OF ls(3) ls(1) assms(2), of a]
  let ?mean = "sum_list (map real_of ls) / real (length ls)"
  have accuracy: "fsub (Finite 100) (fexp (mean_loss ls))
      = (if NaN \<in> set ls then NaN else Finite (100 - exp ?mean))"
    and perplexity: "fexp (mean_loss ls) = (if NaN \<in> set ls then NaN else Finite (exp ?mean))"
    by (simp_all add: mean_loss_def)
  have "evaluate_dataset a sess timer ds =
      Inr (fsub (Finite 100) (fexp (mean_loss ls)),
           perf @ Perplexity (fexp (mean_loss ls)) #
           (if benchmark a \<and> mode a = ''accuracy''
            then [Batch_size (eval_batch_size a), Accuracy (fsub (Finite 100) (fexp (mean_loss ls)))]
            else []))"
    by (simp add: evaluate_dataset_def assms(1) perf acc)
  then have "\<exists>msgs. evaluate_dataset a sess timer ds
        = Inr (if NaN \<in> set ls then NaN else Finite (100 - exp ?mean), msgs)
      \<and> Perplexity (if NaN \<in> set ls then NaN else Finite (exp ?mean)) \<in> set msgs"
    unfolding accuracy perplexity by simp
  with ls(1,2) show ?thesis by blast
qed

theorem evaluate_accuracy_witness:
  "\<exists>msgs.
      evaluate_dataset two_warmup_args (uniform_session 2) unit_timer
        [[0, 1, 0], [1, 1, 1], [0, 0, 1]] = Inr (Finite 98, msgs)
    \<and> Perplexity (Finite 2) \<in> set msgs"
proof -
  let ?ds = "[[0, 1, 0], [1, 1, 1], [0, 0, 1 :: int]]"
  have "\<exists>st. evaluation_loop two_warmup_args (uniform_session 2) unit_timer ?ds = Inr st
      \<and> nb_eval_steps st = 3 \<and> total_time st = 1"
    by (simp add: eval_defs two_warmup_args_def capped_args_def uniform_session_def unit_timer_def)
  then obtain st where loop:
    "evaluation_loop two_warmup_args (uniform_session 2) unit_timer ?ds = Inr st"
    and st: "nb_eval_steps st = 3" "total_time st = 1" by blast
  have bs: "nat (eval_batch_size two_warmup_args) = 1"
    by (simp add: eval_batch_size_def two_warmup_args_def capped_args_def)
  have losses: "map (step_loss (uniform_session 2)) (take (nat 3) (batches 1 ?ds))
      = map Inr [Finite (ln 2), Finite (ln 2), Finite (ln 2)]"
    by (simp add: eval_defs uniform_session_def)
  have steps: "1 \<le> nb_eval_steps st"
    and timed: "nb_eval_steps st < warmup_steps two_warmup_args \<or> total_time st \<noteq> 0"
    using st by simp_all
  from evaluate_accuracy [OF loop steps timed, unfolded st bs]
  obtain ls msgs where ls: "map (step_loss (uniform_session 2)) (take (nat 3) (batches 1 ?ds))
      = map Inr ls"
    and run: "evaluate_dataset two_warmup_args (uniform_session 2) unit_timer ?ds
        = Inr (if NaN \<in> set ls then NaN
               else Finite (100 - exp (sum_list (map real_of ls) / real (length ls))),
               msgs)"
    and logged: "Perplexity (if NaN \<in> set ls then NaN
                   else Finite (exp (sum_list (map real_of ls) / real (length ls))))
        \<in> set msgs"
    by blast
  from ls losses have "map Inr ls = (map Inr [Finite (ln 2), Finite (ln 2), Finite (ln 2)]
      :: (error + pyfloat) list)" by simp
  then have "ls = [Finite (ln 2), Finite (ln 2), Finite (ln 2)]"
    by (simp only: inj_map_eq_map inj_Inr)
  with run logged show ?thesis by simp
qed

section \<open>Throughput and latency (C8)\<close>

text \<open>
  C8. Take a run whose loop ends in the state \<open>st\<close> with at least one step after the
  warm-up steps, on a clock that measures a positive time for every step. The elapsed time
  is the sum of the times of the steps after the warm-up, the reported throughput is
  (step count - warm-up steps) * batch size / elapsed time, and a latency of elapsed time /
  (step count - warm-up steps), printed in milliseconds, is reported exactly when the batch
  size is 1.
\<close>

theorem evaluate_performance:
  assumes "evaluation_loop a sess timer ds = Inr st"
    and "1 \<le> nb_eval_steps st"
    and "warmup_steps a < nb_eval_steps st"
    and "\<And>k. 0 < timer k"
  shows "total_time st = sum timer {max 0 (warmup_steps a) ..< nb_eval_steps st}
    \<and> 0 < total_time st
    \<and> (\<exists>accuracy msgs.
          evaluate_dataset a sess timer ds = Inr (accuracy, msgs)
        \<and> filter is_performance msgs =
            (if eval_batch_size a = 1
             then [Latency_ms (total_time st / real_of_int (nb_eval_steps st - warmup_steps a) * 1000),
                   Throughput (real_of_int ((nb_eval_steps st - warmup_steps a) * eval_batch_size a)
                               / total_time st)]
             else [Throughput (real_of_int ((nb_eval_steps st - warmup_steps a) * eval_batch_size a)
                               / total_time st)]))"
proof -
  note t = evaluation_loop_Inr(5) [OF assms(1)]
  from assms(2,3) have "{max 0 (warmup_steps a) ..< nb_eval_steps st} \<noteq> {}" by simp
  then have "0 < sum timer {max 0 (warmup_steps a) ..< nb_eval_steps st}"
    using assms(4) by (intro sum_pos) simp_all
  with t have pos: "0 < total_time st" by simp
  from assms(3) pos have "warmup_steps a \<le> nb_eval_steps st" "total_time st \<noteq> 0" by simp_all
  note perf = report_performance_Inr [OF t this]
  from evaluation_loop_Inr(4) [OF assms(1)]
  obtain ls where ls: "length ls = nat (nb_eval_steps st)"
    "eval_loss st = foldl fadd (Finite 0) ls"
    by blast
  note acc = report_accuracy_Inr [OF ls(2) ls(1) assms(2), of a]
  have "\<exists>accuracy msgs.
          evaluate_dataset a sess timer ds = Inr (accuracy, msgs)
        \<and> filter is_performance msgs =
            (if eval_batch_size a = 1
             then [Latency_ms (total_time st / real_of_int (nb_eval_steps st - warmup_steps a) * 1000),
                   Throughput (real_of_int ((nb_eval_steps st - warmup_steps a) * eval_batch_size a)
                               / total_time st)]
             else [Throughput (real_of_int ((nb_eval_steps st - warmup_steps a) * eval_batch_size a)
                               / total_time st)])"
    by (simp add: evaluate_dataset_def assms(1) perf acc)
  with t pos show ?thesis by blast
qed

theorem evaluate_performance_witness:
  "\<exists>accuracy msgs.
      evaluate_dataset no_warmup_args (uniform_session 2) unit_timer [[0, 1, 0], [1, 1, 1]]
        = Inr (accuracy, msgs)
    \<and> filter is_performance msgs = [Latency_ms 1000, Throughput 1]"
proof -
  have "\<exists>st. evaluation_loop no_warmup_args (uniform_session 2) unit_timer
           [[0, 1, 0], [1, 1, 1]] = Inr st
      \<and> nb_eval_steps st = 2 \<and> total_time st = 2"
    by (simp add: eval_defs no_warmup_args_def capped_args_def uniform_session_def unit_timer_def)
  then obtain st where loop:
    "evaluation_loop no_warmup_args (uniform_session 2) unit_timer [[0, 1, 0], [1, 1, 1]] = Inr st"
    and st: "nb_eval_steps st = 2" "total_time st = 2" by blast
  have bs: "eval_batch_size no_warmup_args = 1"
    by (simp add: eval_batch_size_def no_warmup_args_def capped_args_def)
  have w: "warmup_steps no_warmup_args = 0"
    by (simp add: no_warmup_args_def capped_args_def)
  have timer: "\<And>k. 0 < unit_timer k" by (simp add: unit_timer_def)
  from evaluate_performance [OF loop _ _ timer] show ?thesis
    by (simp add: bs w st)
qed

section \<open>The iteration cap (C3, C10)\<close>

text \<open>
  C3. With two warm-up steps, an iteration cap of three and seven batches, the loop stops
  after six steps: the test of lines 150-151 is strict and comes after the step counter
  has been incremented, so the loop runs one step more than warm-up steps plus cap.
\<close>

theorem iteration_cap_overrun:
  "warmup_steps capped_args = 2 \<and> iter capped_args = 3
   \<and> map_sum id nb_eval_steps
        (evaluation_loop capped_args (uniform_session 2) unit_timer (replicate 7 [0, 1, 0]))
       = Inr 6"
  by (simp add: eval_defs capped_args_def uniform_session_def unit_timer_def)

text \<open>
  C10, as the code has it. When the iteration cap is 0 the early exit is never taken,
  whatever the number of warm-up steps: if no step raises, the loop processes every batch
  of the data loader, hence every block of the dataset, and the final step count is the
  number of batches, the dataset length divided by the batch size and rounded up (the
  dataset length itself when the batch size is 1).
\<close>

theorem evaluation_loop_without_cap:
  assumes "iter a = 0"
    and "0 < eval_batch_size a"
    and "map (step_loss sess) (batches (nat (eval_batch_size a)) ds) = map Inr ls"
  shows "\<exists>st. evaluation_loop a sess timer ds = Inr st
    \<and> nb_eval_steps st = int (length (batches (nat (eval_batch_size a)) ds))
    \<and> length (batches (nat (eval_batch_size a)) ds)
        = (length ds + nat (eval_batch_size a) - 1) div nat (eval_batch_size a)
    \<and> concat (batches (nat (eval_batch_size a)) ds) = ds
    \<and> eval_loss st = foldl fadd (Finite 0) ls"
proof -
  let ?n = "nat (eval_batch_size a)"
  let ?dl = "batches ?n ds"
  from assms(2) have n: "0 < ?n" by simp
  have k: "steps_taken a 0 (length ?dl) = length ?dl"
    using assms(1) by (simp add: steps_taken_def)
  have d: "dom (ort_inputs init_state) \<subseteq> set (inputs_names sess)"
    and i: "nb_eval_steps init_state = 0"
    by (simp_all add: init_state_def)
  have "map (step_loss sess) (take (steps_taken a (nb_eval_steps init_state) (length ?dl)) ?dl)
      = map Inr ls"
    unfolding i k using assms(3) by simp
  from eval_loop_total [OF d this]
  obtain st where loop: "eval_loop sess timer a ?dl init_state = Inr st" by blast
  with assms(2) have run: "evaluation_loop a sess timer ds = Inr st"
    by (simp add: evaluation_loop_def DataLoader_def)
  from evaluation_loop_Inr(3) [OF run] k
  have nb: "nb_eval_steps st = int (length ?dl)" by simp
  from evaluation_loop_Inr(4) [OF run] nb
  obtain ls' where "map (step_loss sess) ?dl = map Inr ls'"
    "eval_loss st = foldl fadd (Finite 0) ls'" by auto
  with assms(3) have "map Inr ls' = (map Inr ls :: (error + pyfloat) list)" by simp
  then have "ls' = ls" by (simp add: inj_map_eq_map)
  with \<open>eval_loss st = foldl fadd (Finite 0) ls'\<close>
  have "eval_loss st = foldl fadd (Finite 0) ls" by simp
  with run nb length_batches [OF n, of ds] concat_batches [OF n, of ds] show ?thesis by blast
qed

theorem evaluation_loop_without_cap_witness:
  "\<exists>st. evaluation_loop pair_batch_args (uniform_session 2) unit_timer
           [[0, 1, 0], [1, 1, 1], [0, 0, 1]] = Inr st
    \<and> nb_eval_steps st = 2
    \<and> eval_loss st = Finite (ln 2 + ln 2)"
proof -
  have bs: "eval_batch_size pair_batch_args = 2"
    by (simp add: eval_batch_size_def pair_batch_args_def capped_args_def)
  have it: "iter pair_batch_args = 0"
    by (simp add: pair_batch_args_def capped_args_def)
  have losses: "map (step_loss (uniform_session 2))
        (batches (nat (eval_batch_size pair_batch_args)) [[0, 1, 0], [1, 1, 1], [0, 0, 1]])
      = map Inr [Finite (ln 2), Finite (ln 2)]"
    unfolding bs by (simp add: eval_defs uniform_session_def)
  from evaluation_loop_without_cap [OF it _ losses, of unit_timer] show ?thesis
    by (simp add: bs)
qed

text \<open>
  C10 as stated fails: with batches of two blocks and no iteration cap, a dataset of two
  blocks is processed in one step.
\<close>

theorem step_count_differs_from_dataset_length:
  "iter pair_batch_args = 0
   \<and> length [[0, 1, 0], [1, 1, 1 :: int]] = 2
   \<and> map_sum id nb_eval_steps
        (evaluation_loop pair_batch_args (uniform_session 2) unit_timer [[0, 1, 0], [1, 1, 1]])
       = Inr 1"
  by (simp add: eval_defs pair_batch_args_def capped_args_def uniform_session_def unit_timer_def)

section \<open>A run that ends with the warm-up (C4)\<close>

text \<open>
  Whenever the loop ends with a step count equal to the number of warm-up steps, no step has
  been timed, line 153 takes the performance branch, and line 154 divides by the elapsed
  time 0.
\<close>

lemma evaluate_dataset_raises_at_warmup:
  assumes "evaluation_loop a sess timer ds = Inr st"
    and "nb_eval_steps st = warmup_steps a"
  shows "evaluate_dataset a sess timer ds = Inl ZeroDivisionError"
proof -
  from evaluation_loop_Inr(5) [OF assms(1)] assms(2) have "total_time st = 0" by simp
  with assms show ?thesis
    by (simp add: evaluate_dataset_def report_performance_def truediv_def)
qed

text \<open>
  C4. A run of one step with one warm-up step has no step after the warm-up; \<^verbatim>\<open>evaluate\<close>
  raises \<^verbatim>\<open>ZeroDivisionError\<close> in the performance report instead of logging that there is
  no performance.
\<close>

theorem no_performance_raises:
  "warmup_steps one_warmup_args = 1
   \<and> map_sum id nb_eval_steps
        (evaluation_loop one_warmup_args (uniform_session 2) unit_timer [[0, 1, 0]]) = Inr 1
   \<and> evaluate_dataset one_warmup_args (uniform_session 2) unit_timer [[0, 1, 0]]
       = Inl ZeroDivisionError"
  by (simp add: eval_defs one_warmup_args_def capped_args_def uniform_session_def unit_timer_def)

section \<open>The blocks of a fresh build (C2)\<close>

lemma py_slice_window:
  "0 \<le> i \<Longrightarrow> 0 < b \<Longrightarrow> py_slice xs i (i + b) = take (nat b) (drop (nat i) xs)"
proof -
  assume "0 \<le> i" "0 < b"
  then have "nat (i + b) - nat i = nat b" by linarith
  then show ?thesis by (simp add: py_slice_def)
qed

text \<open>The loop of lines 76-77 appends the wrapped windows of width \<open>bsize\<close> that start at
  \<open>i\<close>, \<open>i + bsize\<close>, ... and fit into the token ids.\<close>

lemma features_loop_windows:
  assumes "0 < bsize" and "0 \<le> i"
  shows "features_loop tok ids bsize i examples =
     examples @ map (\<lambda>k. build_inputs_with_special_tokens tok
                            (take (nat bsize) (drop (nat i + k * nat bsize) ids)))
                  [0 ..< (length ids - nat i) div nat bsize]"
  using assms
proof (induction tok ids bsize i examples rule: features_loop.induct)
  case (1 tok ids bsize i examples)
  let ?b = "nat bsize"
  let ?w = "\<lambda>j k. build_inputs_with_special_tokens tok (take ?b (drop (j + k * ?b) ids))"
  from "1.prems" have b: "0 < ?b" by simp
  show ?case
  proof (cases "i < int (length ids) - bsize + 1")
    case True
    with "1.prems" have fit: "?b \<le> length ids - nat i" by linarith
    from "1.prems" have next_i: "nat (i + bsize) = nat i + ?b" by linarith
    have "features_loop tok ids bsize i examples =
        features_loop tok ids bsize (i + bsize)
          (examples @ [build_inputs_with_special_tokens tok (py_slice ids i (i + bsize))])"
      using True "1.prems"(1) by (subst features_loop.simps) simp
    also have "\<dots> = (examples @ [build_inputs_with_special_tokens tok (py_slice ids i (i + bsize))])
        @ map (?w (nat (i + bsize))) [0 ..< (length ids - nat (i + bsize)) div ?b]"
      using True "1.prems" by (intro "1.IH") simp_all
    also have "py_slice ids i (i + bsize) = take ?b (drop (nat i) ids)"
      using "1.prems" by (intro py_slice_window) simp_all
    also have "(length ids - nat (i + bsize)) div ?b = (length ids - nat i - ?b) div ?b"
      by (simp add: next_i)
    finally have step: "features_loop tok ids bsize i examples =
        examples @ ?w (nat i) 0 # map (\<lambda>k. ?w (nat i) (Suc k)) [0 ..< (length ids - nat i - ?b) div ?b]"
      by (simp add: next_i add.assoc)
    have "(length ids - nat i) div ?b = Suc ((length ids - nat i - ?b) div ?b)"
      using fit b by (simp add: le_div_geq)
    then have "map (?w (nat i)) [0 ..< (length ids - nat i) div ?b]
        = ?w (nat i) 0 # map (\<lambda>k. ?w (nat i) (Suc k)) [0 ..< (length ids - nat i - ?b) div ?b]"
      by (simp only: map_upt_Suc)
    with step show ?thesis by simp
  next
    case False
    with "1.prems" have "length ids - nat i < ?b" by linarith
    then have "(length ids - nat i) div ?b = 0" by simp
    moreover have "features_loop tok ids bsize i examples = examples"
      using False by (subst features_loop.simps) simp
    ultimately show ?thesis by simp
  qed
qed

lemma concat_windows:
  "m * b \<le> length xs \<Longrightarrow> concat (map (\<lambda>k. take b (drop (k * b) xs)) [0 ..< m]) = take (m * b) xs"
proof (induction m)
  case 0
  show ?case by simp
next
  case (Suc m)
  then have "concat (map (\<lambda>k. take b (drop (k * b) xs)) [0 ..< m]) = take (m * b) xs" by simp
  moreover have "take (m * b) xs @ take b (drop (m * b) xs) = take (m * b + b) xs"
    by (simp add: take_add)
  ultimately show ?case by (simp add: add.commute)
qed

text \<open>
  C2. For a positive block size \<open>bsize\<close> and a tokenizer that adds no special tokens to a
  single sequence (as the GPT-2 tokenizer, the only one the script selects), a fresh build
  from a text with \<open>N\<close> token ids gives exactly \<open>N div bsize\<close> blocks; block \<open>k\<close> is the window
  of the ids from \<open>k * bsize\<close> on, of length \<open>bsize\<close>; the blocks together are the first
  \<open>N - N mod bsize\<close> ids, so the last \<open>N mod bsize\<close> ids are in no block.
\<close>

theorem create_features_blocks:
  assumes "0 < bsize"
    and "\<And>xs. build_inputs_with_special_tokens tok xs = xs"
  shows "\<exists>blocks.
      create_features tok text bsize = Inr blocks
    \<and> length blocks = length (convert_tokens_to_ids tok (tokenize tok text)) div nat bsize
    \<and> (\<forall>k < length blocks.
          blocks ! k = take (nat bsize)
                         (drop (k * nat bsize) (convert_tokens_to_ids tok (tokenize tok text))))
    \<and> (\<forall>b \<in> set blocks. length b = nat bsize)
    \<and> concat blocks =
        take (length (convert_tokens_to_ids tok (tokenize tok text))
              - length (convert_tokens_to_ids tok (tokenize tok text)) mod nat bsize)
          (convert_tokens_to_ids tok (tokenize tok text))"
proof -
  let ?ids = "convert_tokens_to_ids tok (tokenize tok text)"
  let ?b = "nat bsize"
  let ?m = "length ?ids div ?b"
  let ?blocks = "map (\<lambda>k. take ?b (drop (k * ?b) ?ids)) [0 ..< ?m]"
  from assms(1) have b: "0 < ?b" by simp
  have "features_loop tok ?ids bsize 0 [] = ?blocks"
    using features_loop_windows [OF assms(1), of 0 tok ?ids "[]"] by (simp add: assms(2))
  with assms(1) have run: "create_features tok text bsize = Inr ?blocks"
    by (simp add: create_features_def)
  have fit: "?m * ?b \<le> length ?ids" by simp
  have len: "length ?blocks = ?m" by simp
  have nth: "\<forall>k < length ?blocks. ?blocks ! k = take ?b (drop (k * ?b) ?ids)" by simp
  have width: "\<forall>blk \<in> set ?blocks. length blk = ?b"
  proof
    fix blk assume "blk \<in> set ?blocks"
    then obtain k where k: "k < ?m" and blk: "blk = take ?b (drop (k * ?b) ?ids)" by auto
    from k have "Suc k * ?b \<le> ?m * ?b" by (intro mult_le_mono1) simp
    then have "Suc k * ?b \<le> length ?ids" using fit by (rule order_trans)
    then have "k * ?b + ?b \<le> length ?ids" by (simp add: add.commute)
    then show "length blk = ?b" unfolding blk by simp
  qed
  have "?m * ?b = length ?ids - length ?ids mod ?b"
    by (simp add: minus_mod_eq_div_mult)
  with concat_windows [OF fit] have cat: "concat ?blocks = take (length ?ids - length ?ids mod ?b) ?ids"
    by simp
  from run len nth width cat show ?thesis by blast
qed

theorem create_features_blocks_witness:
  "\<exists>blocks.
      create_features char_tokenizer ''abcdefgh'' 3 = Inr blocks
    \<and> length blocks = 2
    \<and> blocks ! 0 = [97, 98, 99] \<and> blocks ! 1 = [100, 101, 102]
    \<and> concat blocks = [97, 98, 99, 100, 101, 102]"
proof -
  have ids: "convert_tokens_to_ids char_tokenizer (tokenize char_tokenizer ''abcdefgh'')
      = [97, 98, 99, 100, 101, 102, 103, 104]"
    by (simp add: char_tokenizer_def)
  have id: "\<And>xs. build_inputs_with_special_tokens char_tokenizer xs = xs"
    by (simp add: char_tokenizer_def)
  have pos: "(0::int) < 3" by simp
  from create_features_blocks [OF pos id, of "''abcdefgh''"]
  obtain blocks where blocks: "create_features char_tokenizer ''abcdefgh'' 3 = Inr blocks"
    "length blocks = 2"
    "\<forall>k < length blocks. blocks ! k = take 3 (drop (k * 3) [97, 98, 99, 100, 101, 102, 103, 104])"
    "concat blocks = [97, 98, 99, 100, 101, 102]"
    unfolding ids by auto
  from blocks(2,3) have "blocks ! 0 = [97, 98, 99]" "blocks ! 1 = [100, 101, 102]"
    by simp_all
  with blocks show ?thesis by blast
qed

section \<open>The decimal representation of integers\<close>

lemma digit_cases:
  assumes "d < 10"
  obtains "d = 0" | "d = 1" | "d = 2" | "d = 3" | "d = 4" | "d = 5" | "d = 6" | "d = 7"
    | "d = 8" | "d = (9::nat)"
proof -
  from assms have "d = 0 \<or> d = 1 \<or> d = 2 \<or> d = 3 \<or> d = 4 \<or> d = 5 \<or> d = 6 \<or> d = 7
      \<or> d = 8 \<or> d = 9" by presburger
  with that show thesis by blast
qed

lemma digit_char_not_sign: "d < 10 \<Longrightarrow> digit_char d \<noteq> CHR ''-'' \<and> digit_char d \<noteq> CHR ''_''"
  by (erule digit_cases) (simp_all add: digit_char_def)

lemma digit_char_inj: "d < 10 \<Longrightarrow> e < 10 \<Longrightarrow> digit_char d = digit_char e \<Longrightarrow> d = e"
  by (erule digit_cases; erule digit_cases) (simp_all add: digit_char_def)

lemma str_nat_small [simp]: "n < 10 \<Longrightarrow> str_nat n = [digit_char n]"
  by (subst str_nat.simps) simp

lemma str_nat_large [simp]:
  "10 \<le> n \<Longrightarrow> str_nat n = str_nat (n div 10) @ [digit_char (n mod 10)]"
  by (rule trans [OF str_nat.simps]) simp

lemma str_nat_nonempty: "str_nat n \<noteq> []"
  by (subst str_nat.simps) simp

lemma str_nat_digits: "c \<in> set (str_nat n) \<Longrightarrow> c \<noteq> CHR ''-'' \<and> c \<noteq> CHR ''_''"
proof (induction n rule: str_nat.induct)
  case (1 n)
  show ?case
  proof (cases "n < 10")
    case True
    with 1(2) show ?thesis by (simp add: digit_char_not_sign)
  next
    case False
    with 1(2) consider "c \<in> set (str_nat (n div 10))" | "c = digit_char (n mod 10)" by auto
    then show ?thesis
    proof cases
      case 1
      with "1.IH" False show ?thesis by simp
    next
      case 2
      then show ?thesis by (simp add: digit_char_not_sign)
    qed
  qed
qed

lemma str_nat_inj: "str_nat n = str_nat m \<Longrightarrow> n = m"
proof (induction n arbitrary: m rule: str_nat.induct)
  case (1 n)
  show ?case
  proof (cases "n < 10")
    case n: True
    show ?thesis
    proof (cases "m < 10")
      case True
      with n 1(2) show ?thesis by (simp add: digit_char_inj)
    next
      case False
      with n 1(2) have "[digit_char n] = str_nat (m div 10) @ [digit_char (m mod 10)]" by simp
      then have "str_nat (m div 10) = []" by simp
      then show ?thesis by (simp add: str_nat_nonempty)
    qed
  next
    case n: False
    show ?thesis
    proof (cases "m < 10")
      case True
      with n 1(2) have "str_nat (n div 10) @ [digit_char (n mod 10)] = [digit_char m]" by simp
      then show ?thesis by (simp add: str_nat_nonempty)
    next
      case False
      with n 1(2) have "str_nat (n div 10) = str_nat (m div 10)"
        and "digit_char (n mod 10) = digit_char (m mod 10)" by simp_all
      with "1.IH" n have "n div 10 = m div 10" and "n mod 10 = m mod 10"
        by (simp_all add: digit_char_inj)
      then have "10 * (n div 10) + n mod 10 = 10 * (m div 10) + m mod 10" by simp
      then show ?thesis by simp
    qed
  qed
qed

lemma str_int_digits: "CHR ''_'' \<notin> set (str_int i)"
  using str_nat_digits by (auto simp: str_int_def)

lemma str_int_inj:
  assumes "str_int i = str_int j"
  shows "i = j"
proof -
  have sign: "hd (str_nat n) \<noteq> CHR ''-''" for n
    using str_nat_digits [of "hd (str_nat n)" n] str_nat_nonempty [of n] by simp
  show ?thesis
  proof (cases "i < 0")
    case i: True
    show ?thesis
    proof (cases "j < 0")
      case True
      with i assms have "str_nat (nat (- i)) = str_nat (nat (- j))" by (simp add: str_int_def)
      then have "nat (- i) = nat (- j)" by (rule str_nat_inj)
      with i True show ?thesis by simp
    next
      case False
      with i assms have "str_nat (nat j) = CHR ''-'' # str_nat (nat (- i))"
        by (simp add: str_int_def)
      then have "hd (str_nat (nat j)) = CHR ''-''" by simp
      with sign show ?thesis by blast
    qed
  next
    case i: False
    show ?thesis
    proof (cases "j < 0")
      case True
      with i assms have "str_nat (nat i) = CHR ''-'' # str_nat (nat (- j))"
        by (simp add: str_int_def)
      then have "hd (str_nat (nat i)) = CHR ''-''" by simp
      with sign show ?thesis by blast
    next
      case False
      with i assms have "str_nat (nat i) = str_nat (nat j)" by (simp add: str_int_def)
      then have "nat i = nat j" by (rule str_nat_inj)
      with i False show ?thesis by simp
    qed
  qed
qed

section \<open>The cache key (C5)\<close>

lemma split_at_last_separator:
  assumes "u @ c # s = u' @ c # s'" and "c \<notin> set s" and "c \<notin> set s'"
  shows "u = u' \<and> s = s'"
proof -
  from assms(1) have "rev (u @ c # s) = rev (u' @ c # s')" by simp
  then have "rev s @ c # rev u = rev s' @ c # rev u'" by simp
  moreover have "takeWhile (\<lambda>x. x \<noteq> c) (rev s @ c # rev u) = rev s"
    using assms(2) by (auto simp: takeWhile_tail)
  moreover have "takeWhile (\<lambda>x. x \<noteq> c) (rev s' @ c # rev u') = rev s'"
    using assms(3) by (auto simp: takeWhile_tail)
  ultimately have "rev s = rev s'" by simp
  then have "s = s'" by simp
  with assms(1) show ?thesis by simp
qed

lemma path_join_inj:
  assumes "path_join ''./dataset_cached'' x = path_join ''./dataset_cached'' y"
    and "x \<noteq> []" and "y \<noteq> []"
  shows "x = y"
proof (cases "hd x = CHR ''/''")
  case x: True
  show ?thesis
  proof (cases "hd y = CHR ''/''")
    case True
    with x assms show ?thesis by (simp add: path_join_def)
  next
    case False
    with x assms have "x = ''./dataset_cached/'' @ y" by (simp add: path_join_def)
    then have "hd x = CHR ''.''" by simp
    with x show ?thesis by simp
  qed
next
  case x: False
  show ?thesis
  proof (cases "hd y = CHR ''/''")
    case True
    with x assms have "y = ''./dataset_cached/'' @ x" by (simp add: path_join_def)
    then have "hd y = CHR ''.''" by simp
    with True show ?thesis by simp
  next
    case False
    with x assms show ?thesis by (simp add: path_join_def)
  qed
qed

lemma cached_features_file_inj:
  assumes "cached_features_file m1 b1 f = cached_features_file m2 b2 f"
  shows "m1 = m2 \<and> b1 = b2"
proof -
  have ne: "m @ ''_cached_lm_'' @ str_int b @ ''_'' @ f \<noteq> []" for m b
    by simp
  have "m1 @ ''_cached_lm_'' @ str_int b1 @ ''_'' @ f = m2 @ ''_cached_lm_'' @ str_int b2 @ ''_'' @ f"
    using assms ne [of m1 b1] ne [of m2 b2] unfolding cached_features_file_def
    by (rule path_join_inj)
  moreover have "m @ ''_cached_lm_'' @ str_int b @ ''_'' @ f
      = ((m @ ''_cached_lm'') @ CHR ''_'' # str_int b) @ (''_'' @ f)" for m b
    by simp
  ultimately have "((m1 @ ''_cached_lm'') @ CHR ''_'' # str_int b1) @ (''_'' @ f)
      = ((m2 @ ''_cached_lm'') @ CHR ''_'' # str_int b2) @ (''_'' @ f)"
    by (simp only:)
  then have "(m1 @ ''_cached_lm'') @ CHR ''_'' # str_int b1
      = (m2 @ ''_cached_lm'') @ CHR ''_'' # str_int b2"
    by (simp only: append_same_eq)
  from split_at_last_separator [OF this str_int_digits str_int_digits]
  have m: "m1 @ ''_cached_lm'' = m2 @ ''_cached_lm''" and b: "str_int b1 = str_int b2"
    by blast+
  from m have "m1 = m2" by (simp only: append_same_eq)
  moreover from b have "b1 = b2" by (rule str_int_inj)
  ultimately show ?thesis by blast
qed

text \<open>
  C5, as the code has it. Two keys that name the same source file and differ in the model
  identifier or in the block size give different cache path strings.
\<close>

theorem cached_features_file_distinct:
  assumes "m1 \<noteq> m2 \<or> b1 \<noteq> b2"
  shows "cached_features_file m1 b1 f \<noteq> cached_features_file m2 b2 f"
  using assms cached_features_file_inj [of m1 b1 f m2 b2] by blast

theorem cached_features_file_distinct_witness:
  "cached_features_file ''gpt2'' 512 ''wiki.test.raw''
     \<noteq> cached_features_file ''gpt2'' 1024 ''wiki.test.raw''"
proof -
  have differ: "''gpt2'' \<noteq> ''gpt2'' \<or> (512::int) \<noteq> 1024" by simp
  from cached_features_file_distinct [OF differ, of "''wiki.test.raw''"]
  show ?thesis .
qed

text \<open>
  C5 as stated fails: the path is not injective in the model identifier, the block size
  and the file name together. The key is the plain concatenation of the three, so the model
  identifier \<open>x\<close> with block size 1 and the file name \<open>y_cached_lm_2_z\<close> gives the path of the
  model identifier \<open>x_cached_lm_1_y\<close> with block size 2 and the file name \<open>z\<close>; and after a
  build under the first key, the constructor under the second key loads the blocks of the
  first: blocks of length 1 of the other corpus.
\<close>

theorem cache_key_collision:
  "(''x'', 1 :: int, ''y_cached_lm_2_z'') \<noteq> (''x_cached_lm_1_y'', 2, ''z'')
   \<and> cached_features_file ''x'' 1 ''y_cached_lm_2_z''
       = cached_features_file ''x_cached_lm_1_y'' 2 ''z''
   \<and> TextDataset_init char_tokenizer model_x_args ''y_cached_lm_2_z'' 1 two_corpora_fs
       = Inr ([[97], [98]], two_corpora_cached_fs)
   \<and> TextDataset_init char_tokenizer model_x_1_y_args ''z'' 2 two_corpora_cached_fs
       = Inr ([[97], [98]], two_corpora_cached_fs)"
proof -
  have key1: "cached_features_file ''x'' 1 ''y_cached_lm_2_z''
      = ''./dataset_cached/x_cached_lm_1_y_cached_lm_2_z''"
    by (simp add: cached_features_file_def path_join_def str_int_def digit_char_def)
  have key2: "cached_features_file ''x_cached_lm_1_y'' 2 ''z''
      = ''./dataset_cached/x_cached_lm_1_y_cached_lm_2_z''"
    by (simp add: cached_features_file_def path_join_def str_int_def digit_char_def)
  have name1: "path_basename ''y_cached_lm_2_z'' = ''y_cached_lm_2_z''"
    and name2: "path_basename ''z'' = ''z''"
    by (simp_all add: path_basename_def)
  have parent: "path_dirname ''./dataset_cached/x_cached_lm_1_y_cached_lm_2_z''
      = ''./dataset_cached''"
    by (simp add: path_dirname_def)
  have "features_loop char_tokenizer [97, 98] 1 0 [] = [[97], [98]]"
    by (subst features_loop_windows) (simp_all add: char_tokenizer_def numeral_2_eq_2)
  then have built: "create_features char_tokenizer ''ab'' 1 = Inr [[97], [98]]"
    by (simp add: create_features_def char_tokenizer_def)
  have first: "TextDataset_init char_tokenizer model_x_args ''y_cached_lm_2_z'' 1 two_corpora_fs
      = Inr ([[97], [98]], two_corpora_cached_fs)"
    by (simp add: TextDataset_init_def model_x_args_def capped_args_def name1 key1 parent built
        isfile_def path_exists_def read_text_def pickle_dump_def two_corpora_fs_def
        two_corpora_cached_fs_def)
  have second: "TextDataset_init char_tokenizer model_x_1_y_args ''z'' 2 two_corpora_cached_fs
      = Inr ([[97], [98]], two_corpora_cached_fs)"
    by (simp add: TextDataset_init_def model_x_1_y_args_def capped_args_def name2 key2
        isfile_def path_exists_def pickle_load_def two_corpora_fs_def two_corpora_cached_fs_def)
  from key1 key2 first second show ?thesis by simp
qed

section \<open>Building and loading the cached dataset (C6)\<close>

lemma cached_features_file_not_directory:
  "cached_features_file m b f \<noteq> ''./dataset_cached''"
proof -
  let ?x = "m @ ''_cached_lm_'' @ str_int b @ ''_'' @ f"
  have ne: "?x \<noteq> []" by simp
  show ?thesis
  proof (cases "hd ?x = CHR ''/''")
    case True
    with ne have "cached_features_file m b f = ?x"
      by (simp add: cached_features_file_def path_join_def)
    moreover have "hd ''./dataset_cached'' \<noteq> CHR ''/''" by simp
    with True have "?x \<noteq> ''./dataset_cached''" by (rule_tac notI) (simp only:)
    ultimately show ?thesis by simp
  next
    case False
    then have "cached_features_file m b f = ''./dataset_cached'' @ ''/'' @ ?x"
      by (simp add: cached_features_file_def path_join_def)
    then have "length (cached_features_file m b f) > length ''./dataset_cached''"
      by simp
    then show ?thesis by (rule_tac notI) (simp only: less_irrefl)
  qed
qed

lemma pickle_dump_Inr:
  "pickle_dump fs p v = Inr fs' \<Longrightarrow> fs' = fs(p \<mapsto> Pickled v)"
  by (auto simp: pickle_dump_def split: option.splits node.splits)

text \<open>A call of the constructor that returns after a fresh build.\<close>

lemma TextDataset_init_build:
  assumes "TextDataset_init tok a file_path bsize fs = Inr (examples, fs')"
    and "\<not> path_exists fs
             (cached_features_file (model_name_or_path a) bsize (path_basename file_path))
         \<or> overwrite_cache a"
  defines "cached \<equiv> cached_features_file (model_name_or_path a) bsize (path_basename file_path)"
  defines "fs1 \<equiv> (if \<not> path_exists fs ''./dataset_cached''
                   then fs(''./dataset_cached'' \<mapsto> Directory) else fs)"
  shows "isfile fs file_path"
    and "\<exists>text. read_text fs file_path = Inr text \<and> create_features tok text bsize = Inr examples"
    and "fs' = fs1(cached \<mapsto> Pickled examples)"
proof -
  from assms(1) show is_file: "isfile fs file_path"
    by (cases "isfile fs file_path") (simp_all add: TextDataset_init_def)
  have "path_exists fs1 cached = path_exists fs cached"
    using cached_features_file_not_directory [of "model_name_or_path a" bsize "path_basename file_path"]
    by (simp add: fs1_def cached_def path_exists_def)
  with assms(2) have build: "\<not> (path_exists fs1 cached \<and> \<not> overwrite_cache a)"
    by (auto simp: cached_def)
  from assms(1) is_file build
  have run: "(case read_text fs1 file_path of
                Inl e \<Rightarrow> Inl e
              | Inr text \<Rightarrow>
                  (case create_features tok text bsize of
                     Inl e \<Rightarrow> Inl e
                   | Inr examples \<Rightarrow>
                       (case pickle_dump fs1 cached examples of
                          Inl e \<Rightarrow> Inl e
                        | Inr fs2 \<Rightarrow> Inr (examples, fs2)))) = Inr (examples, fs')"
    unfolding TextDataset_init_def Let_def cached_def [symmetric] fs1_def [symmetric]
    by (simp only: if_False if_True not_not simp_thms)
  then obtain corpus where corpus: "read_text fs1 file_path = Inr corpus"
    by (cases "read_text fs1 file_path") simp_all
  with run obtain ex where ex: "create_features tok corpus bsize = Inr ex"
    by (cases "create_features tok corpus bsize") simp_all
  with run corpus obtain fs2 where fs2: "pickle_dump fs1 cached ex = Inr fs2"
    by (cases "pickle_dump fs1 cached ex") simp_all
  with run corpus ex have "ex = examples" "fs2 = fs'" by simp_all
  with ex fs2 have ex': "create_features tok corpus bsize = Inr examples"
    and dump: "pickle_dump fs1 cached examples = Inr fs'" by simp_all
  from dump show "fs' = fs1(cached \<mapsto> Pickled examples)" by (rule pickle_dump_Inr)
  from is_file have "fs file_path \<noteq> None" by (auto simp: isfile_def split: option.splits)
  then have "fs1 file_path = fs file_path"
    by (auto simp: fs1_def path_exists_def)
  with corpus have "read_text fs file_path = Inr corpus" by (simp add: read_text_def)
  with ex' show "\<exists>text. read_text fs file_path = Inr text
      \<and> create_features tok text bsize = Inr examples" by blast
qed

text \<open>
  C6. Let a call of the constructor build the dataset (no artifact exists under its cache
  path, or the cache is overwritten) and return the blocks \<open>examples\<close>, built from the
  text of the corpus, and the file system \<open>fs'\<close>. Then a second call on \<open>fs'\<close> with the
  same model identifier, block size and file name, and without overwriting, returns the
  same blocks and leaves the file system as it is, whatever tokenizer it is given: it
  loads the artifact and does not tokenize.
\<close>

theorem cache_round_trip:
  assumes "TextDataset_init tok a file_path bsize fs = Inr (examples, fs')"
    and "\<not> path_exists fs
             (cached_features_file (model_name_or_path a) bsize (path_basename file_path))
         \<or> overwrite_cache a"
    and "model_name_or_path a' = model_name_or_path a"
    and "path_basename file_path' = path_basename file_path"
    and "\<not> overwrite_cache a'"
    and "isfile fs' file_path'"
  shows "(\<exists>text. read_text fs file_path = Inr text \<and> create_features tok text bsize = Inr examples)
    \<and> TextDataset_init tok' a' file_path' bsize fs' = Inr (examples, fs')"
proof -
  let ?cached = "cached_features_file (model_name_or_path a) bsize (path_basename file_path)"
  let ?fs1 = "if \<not> path_exists fs ''./dataset_cached''
              then fs(''./dataset_cached'' \<mapsto> Directory) else fs"
  note build = TextDataset_init_build [OF assms(1,2)]
  have fs': "fs' = ?fs1(?cached \<mapsto> Pickled examples)" by (rule build(3))
  have dir: "?cached \<noteq> ''./dataset_cached''" by (rule cached_features_file_not_directory)
  have "?fs1 ''./dataset_cached'' \<noteq> None" by (simp add: path_exists_def)
  with dir have "fs' ''./dataset_cached'' \<noteq> None" unfolding fs' by simp
  then have exists_dir: "path_exists fs' ''./dataset_cached''" by (simp add: path_exists_def)
  have cached: "fs' ?cached = Some (Pickled examples)" unfolding fs' by simp
  then have exists_cached: "path_exists fs' ?cached" by (simp add: path_exists_def)
  from cached have load: "pickle_load fs' ?cached = Inr examples" by (simp add: pickle_load_def)
  have "TextDataset_init tok' a' file_path' bsize fs' = Inr (examples, fs')"
    unfolding TextDataset_init_def Let_def assms(3,4)
    using assms(5,6) exists_dir exists_cached load by simp
  with build(2) show ?thesis by blast
qed

lemma create_features_example:
  "create_features char_tokenizer ''abcdefgh'' 3 = Inr [[97, 98, 99], [100, 101, 102]]"
proof -
  have "features_loop char_tokenizer [97, 98, 99, 100, 101, 102, 103, 104] 3 0 []
      = [[97, 98, 99], [100, 101, 102]]"
    by (subst features_loop_windows) (simp_all add: char_tokenizer_def numeral_2_eq_2)
  then show ?thesis by (simp add: create_features_def char_tokenizer_def)
qed

theorem cache_round_trip_witness:
  "TextDataset_init silent_tokenizer capped_args ''data/wiki.test.raw'' 3 cached_fs
     = Inr ([[97, 98, 99], [100, 101, 102]], cached_fs)"
proof -
  have model: "model_name_or_path capped_args = ''gpt2''" by (simp add: capped_args_def)
  have name: "path_basename ''data/wiki.test.raw'' = ''wiki.test.raw''"
    by (simp add: path_basename_def)
  have key: "cached_features_file ''gpt2'' 3 ''wiki.test.raw''
      = ''./dataset_cached/gpt2_cached_lm_3_wiki.test.raw''"
    by (simp add: cached_features_file_def path_join_def str_int_def digit_char_def)
  have parent: "path_dirname ''./dataset_cached/gpt2_cached_lm_3_wiki.test.raw''
      = ''./dataset_cached''"
    by (simp add: path_dirname_def)
  have first: "TextDataset_init char_tokenizer capped_args ''data/wiki.test.raw'' 3 corpus_fs
      = Inr ([[97, 98, 99], [100, 101, 102]], cached_fs)"
    by (simp add: TextDataset_init_def model name key parent create_features_example
        isfile_def path_exists_def read_text_def pickle_dump_def corpus_fs_def cached_fs_def
        capped_args_def)
  have fresh: "\<not> path_exists corpus_fs
        (cached_features_file (model_name_or_path capped_args) 3
           (path_basename ''data/wiki.test.raw''))
      \<or> overwrite_cache capped_args"
    by (simp add: model name key path_exists_def corpus_fs_def)
  have keep: "\<not> overwrite_cache capped_args" by (simp add: capped_args_def)
  have is_file: "isfile cached_fs ''data/wiki.test.raw''"
    by (simp add: isfile_def cached_fs_def corpus_fs_def)
  from cache_round_trip [OF first fresh refl refl keep is_file, of silent_tokenizer]
  show ?thesis by blast
qed

section \<open>The tensors given to the session (C7)\<close>

lemma bind_inputs_first:
  assumes "name \<notin> set names"
  shows "bind_inputs (name # names) x m name = Some (expand_dims0 x)"
proof -
  have "bind_inputs (name # names) x m name
      = bind_inputs names (expand_dims0 x) (m(name \<mapsto> expand_dims0 x)) name"
    by (simp add: Let_def)
  also have "\<dots> = (m(name \<mapsto> expand_dims0 x)) name"
    using assms by (subst bind_inputs_apply) simp
  finally show ?thesis by simp
qed

lemma collate_uniform:
  assumes "batch \<noteq> []" and "\<forall>b \<in> set batch. length b = n"
  shows "collate batch = Inr \<lparr>shape = [length batch, n], data = concat batch\<rparr>"
proof -
  from assms have "length (hd batch) = n" by simp
  with assms(2) show ?thesis by (simp add: collate_def list_all_iff)
qed

text \<open>
  C7, as the code has it. At every step, for a dataset whose blocks all have length \<open>n\<close>:
  the batch is a tensor of shape (k, n) with \<open>k\<close> blocks, where \<open>k\<close> is at least 1 and at
  most the batch size; the tensor bound to the first declared input name has rank 3 and
  shape (1, k, n) and holds the blocks of the batch; and the loss of the step is computed
  from the first output of the session run.
\<close>

theorem first_input_binding:
  assumes "DataLoader dataset (eval_batch_size a) = Inr eval_dataloader"
    and "batch \<in> set eval_dataloader"
    and "\<forall>b \<in> set dataset. length b = n"
    and "inputs_names sess = name # names"
    and "name \<notin> set names"
  shows "\<exists>labels.
      collate batch = Inr labels
    \<and> labels = \<lparr>shape = [length batch, n], data = concat batch\<rparr>
    \<and> 0 < length batch \<and> int (length batch) \<le> eval_batch_size a
    \<and> bind_inputs (inputs_names sess) labels m name
        = Some \<lparr>shape = [1, length batch, n], data = concat batch\<rparr>
    \<and> (\<forall>lm_logits outputs.
          run sess (bind_inputs (inputs_names sess) labels m) = Inr (lm_logits # outputs)
          \<longrightarrow> batch_loss sess m batch
              = map_sum id (\<lambda>loss. (loss, bind_inputs (inputs_names sess) labels m))
                  (lm_loss lm_logits labels))"
proof -
  let ?labels = "\<lparr>shape = [length batch, n], data = concat batch\<rparr>"
  from assms(1) have pos: "0 < eval_batch_size a"
    and dl: "eval_dataloader = batches (nat (eval_batch_size a)) dataset"
    by (cases "eval_batch_size a \<le> 0"; simp add: DataLoader_def)+
  from assms(2) have mem: "batch \<noteq> [] \<and> length batch \<le> nat (eval_batch_size a)
      \<and> set batch \<subseteq> set dataset"
    unfolding dl by (rule batches_member)
  with assms(3) have uniform: "\<forall>b \<in> set batch. length b = n" by blast
  from mem pos have size: "0 < length batch" "int (length batch) \<le> eval_batch_size a"
    by (simp, linarith)
  from mem uniform have collate: "collate batch = Inr ?labels"
    by (intro collate_uniform) simp_all
  have bound: "bind_inputs (inputs_names sess) ?labels m name
      = Some \<lparr>shape = [1, length batch, n], data = concat batch\<rparr>"
    unfolding assms(4) bind_inputs_first [OF assms(5)] by (simp add: expand_dims0_def)
  have first_output: "\<forall>lm_logits outputs.
          run sess (bind_inputs (inputs_names sess) ?labels m) = Inr (lm_logits # outputs)
          \<longrightarrow> batch_loss sess m batch
              = map_sum id (\<lambda>loss. (loss, bind_inputs (inputs_names sess) ?labels m))
                  (lm_loss lm_logits ?labels)"
  proof (intro allI impI)
    fix lm_logits outputs
    assume "run sess (bind_inputs (inputs_names sess) ?labels m) = Inr (lm_logits # outputs)"
    then show "batch_loss sess m batch
        = map_sum id (\<lambda>loss. (loss, bind_inputs (inputs_names sess) ?labels m))
            (lm_loss lm_logits ?labels)"
      by (cases "lm_loss lm_logits ?labels") (simp_all add: batch_loss_def collate Let_def)
  qed
  from collate size bound first_output show ?thesis by blast
qed

theorem first_input_binding_witness:
  "collate [[0, 1, 0], [1, 1, 1]] = Inr \<lparr>shape = [2, 3], data = [0, 1, 0, 1, 1, 1]\<rparr>
   \<and> bind_inputs (inputs_names (uniform_session 2))
        \<lparr>shape = [2, 3], data = [0, 1, 0, 1, 1, 1]\<rparr> Map.empty ''input1''
       = Some \<lparr>shape = [1, 2, 3], data = [0, 1, 0, 1, 1, 1]\<rparr>"
proof -
  have loader: "DataLoader [[0, 1, 0], [1, 1, 1], [0, 0, 1]] (eval_batch_size pair_batch_args)
      = Inr [[[0, 1, 0], [1, 1, 1]], [[0, 0, 1]]]"
    by (simp add: DataLoader_def eval_batch_size_def pair_batch_args_def capped_args_def)
  have batch: "[[0, 1, 0], [1, 1, 1]] \<in> set [[[0, 1, 0], [1, 1, 1]], [[0, 0, 1 :: int]]]"
    by simp
  have blocks: "\<forall>b \<in> set [[0, 1, 0], [1, 1, 1], [0, 0, 1 :: int]]. length b = 3" by simp
  have names: "inputs_names (uniform_session 2) = ''input1'' # []" "''input1'' \<notin> set []"
    by (simp_all add: uniform_session_def)
  from first_input_binding [OF loader batch blocks names, of Map.empty]
  show ?thesis by (simp add: numeral_2_eq_2)
qed

text \<open>
  C7 as stated fails: for a batch of one block of length 3 the tensor bound to the input
  name has the shape (1, 1, 3), of rank 3, and not the shape (1, 3).
\<close>

theorem input_tensor_has_rank_3:
  "collate [[0, 1, 0]] = Inr \<lparr>shape = [1, 3], data = [0, 1, 0]\<rparr>
   \<and> map_option shape
        (bind_inputs (inputs_names (uniform_session 2)) \<lparr>shape = [1, 3], data = [0, 1, 0]\<rparr>
           Map.empty ''input1'') = Some [1, 1, 3]
   \<and> map_option shape
        (bind_inputs (inputs_names (uniform_session 2)) \<lparr>shape = [1, 3], data = [0, 1, 0]\<rparr>
           Map.empty ''input1'') \<noteq> Some [1, 3]"
  by (simp add: collate_def uniform_session_def expand_dims0_def)

section \<open>Splitting a list into rows\<close>

lemma batches_unfold:
  "0 < n \<Longrightarrow> xs \<noteq> [] \<Longrightarrow> batches n xs = take n xs # batches n (drop n xs)"
  by (subst batches.simps) simp

lemma batches_rows:
  "0 < m \<Longrightarrow> length xs = k * m \<Longrightarrow> batches m xs = map (\<lambda>j. take m (drop (j * m) xs)) [0 ..< k]"
proof (induction k arbitrary: xs)
  case 0
  then show ?case by simp
next
  case (Suc k)
  then have "xs \<noteq> []" by auto
  with Suc.prems have "batches m xs = take m xs # batches m (drop m xs)"
    by (intro batches_unfold)
  moreover from Suc.prems have "length (drop m xs) = k * m" by simp
  with Suc have "batches m (drop m xs) = map (\<lambda>j. take m (drop (j * m) (drop m xs))) [0 ..< k]"
    by blast
  then have "batches m (drop m xs) = map (\<lambda>j. take m (drop (Suc j * m) xs)) [0 ..< k]"
    by (simp add: add.commute)
  ultimately show ?case by (simp only: map_upt_Suc) simp
qed

lemma batches_append:
  "0 < m \<Longrightarrow> length xs = q * m \<Longrightarrow> batches m (xs @ ys) = batches m xs @ batches m ys"
proof (induction q arbitrary: xs)
  case 0
  then show ?case by simp
next
  case (Suc q)
  then have ne: "xs \<noteq> []" and len: "m \<le> length xs" by auto
  from Suc.prems have rest: "length (drop m xs) = q * m" by simp
  from ne Suc.prems(1) have "batches m (xs @ ys) = take m (xs @ ys) # batches m (drop m (xs @ ys))"
    by (intro batches_unfold) simp_all
  also from len have "\<dots> = take m xs # batches m (drop m xs @ ys)" by simp
  also from Suc.IH [OF Suc.prems(1) rest] have "\<dots> = take m xs # batches m (drop m xs) @ batches m ys"
    by simp
  also from ne Suc.prems(1) have "\<dots> = batches m xs @ batches m ys"
    by (simp add: batches_unfold)
  finally show ?case .
qed

lemma batches_concat:
  assumes "0 < m" and "\<forall>c \<in> set cs. length c = q * m"
  shows "batches m (concat cs) = concat (map (batches m) cs)"
  using assms(2)
proof (induction cs)
  case Nil
  show ?case by simp
next
  case (Cons c cs)
  then have "length c = q * m" by simp
  with assms(1) have "batches m (c @ concat cs) = batches m c @ batches m (concat cs)"
    by (rule batches_append)
  with Cons show ?case by simp
qed

lemma batches_concat_uniform:
  assumes "0 < n" and "\<forall>b \<in> set xss. length b = n"
  shows "batches n (concat xss) = xss"
proof -
  from assms(2) have "\<forall>b \<in> set xss. length b = 1 * n" by simp
  with assms(1) have "batches n (concat xss) = concat (map (batches n) xss)"
    by (rule batches_concat)
  moreover have "map (batches n) xss = map (\<lambda>b. [b]) xss"
  proof (rule map_cong [OF refl])
    fix b assume "b \<in> set xss"
    with assms(2) have "length b = 1 * n" by simp
    with assms(1) have "batches n b = map (\<lambda>j. take n (drop (j * n) b)) [0 ..< 1]"
      by (rule batches_rows)
    with \<open>length b = 1 * n\<close> show "batches n b = [b]" by simp
  qed
  ultimately show ?thesis by (simp add: concat_map_singleton)
qed

lemma take_drop_nth:
  "off + v \<le> length xs \<Longrightarrow> take v (drop off xs) = map (\<lambda>c. xs ! (off + c)) [0 ..< v]"
  by (intro nth_equalityI) simp_all

section \<open>The rows of logits and the targets after the shift\<close>

text \<open>
  After the shift, the rows of logits and the targets are indexed by the pairs \<open>(j, i)\<close> of
  a block \<open>j\<close> of the batch and a position \<open>i\<close> of the block that has a next position.
\<close>

lemma batches_zero [simp]: "batches 0 xs = []"
  by (simp add: batches.simps)

lemma shifted_rows:
  assumes "0 < v" and "length xs = k * (n * v)"
  shows "batches v (concat (map (take ((n - 1) * v)) (batches (n * v) xs)))
    = map (\<lambda>(j, i). take v (drop ((j * n + i) * v) xs))
        (concat (map (\<lambda>j. map (Pair j) [0 ..< n - 1]) [0 ..< k]))"
proof (cases "n = 0")
  case True
  then show ?thesis by simp
next
  case False
  with assms(1) have nv: "0 < n * v" by simp
  let ?chunk = "\<lambda>j. take ((n - 1) * v) (drop (j * (n * v)) xs)"
  have le: "(n - 1) * v \<le> n * v" by simp
  have e1: "map (take ((n - 1) * v)) (batches (n * v) xs) = map ?chunk [0 ..< k]"
    using le by (simp add: batches_rows [OF nv assms(2)] min_absorb1)
  have chunk_len: "length (?chunk j) = (n - 1) * v" if "j < k" for j
  proof -
    from that have "Suc j * (n * v) \<le> k * (n * v)" by (intro mult_le_mono1) simp
    with assms(2) have "j * (n * v) + n * v \<le> length xs" by simp
    with le have "(n - 1) * v \<le> length xs - j * (n * v)" by linarith
    then show ?thesis by (simp only: length_take length_drop min_absorb2)
  qed
  then have "\<forall>c \<in> set (map ?chunk [0 ..< k]). length c = (n - 1) * v" by auto
  with assms(1) have e2: "batches v (concat (map ?chunk [0 ..< k]))
      = concat (map (batches v) (map ?chunk [0 ..< k]))"
    by (rule batches_concat)
  have e3: "map (batches v) (map ?chunk [0 ..< k])
      = map (\<lambda>j. map (\<lambda>i. take v (drop ((j * n + i) * v) xs)) [0 ..< n - 1]) [0 ..< k]"
  proof -
    have "batches v (?chunk j) = map (\<lambda>i. take v (drop ((j * n + i) * v) xs)) [0 ..< n - 1]"
      if "j < k" for j
    proof -
      have "batches v (?chunk j) = map (\<lambda>i. take v (drop (i * v) (?chunk j))) [0 ..< n - 1]"
        using assms(1) chunk_len [OF that] by (rule batches_rows)
      also have "\<dots> = map (\<lambda>i. take v (drop ((j * n + i) * v) xs)) [0 ..< n - 1]"
      proof (rule map_cong [OF refl])
        fix i assume "i \<in> set [0 ..< n - 1]"
        then have "Suc i * v \<le> (n - 1) * v" by (intro mult_le_mono1) simp
        then have "v \<le> (n - 1) * v - i * v" by simp
        then have "take v (drop (i * v) (?chunk j)) = take v (drop (i * v) (drop (j * (n * v)) xs))"
          by (simp add: drop_take min_absorb1)
        also have "i * v + j * (n * v) = (j * n + i) * v" by (simp add: algebra_simps)
        then have "drop (i * v) (drop (j * (n * v)) xs) = drop ((j * n + i) * v) xs" by simp
        finally show "take v (drop (i * v) (?chunk j)) = take v (drop ((j * n + i) * v) xs)" .
      qed
      finally show ?thesis .
    qed
    then show ?thesis by simp
  qed
  have "batches v (concat (map (take ((n - 1) * v)) (batches (n * v) xs)))
      = batches v (concat (map ?chunk [0 ..< k]))"
    by (simp only: e1)
  also have "\<dots> = concat (map (batches v) (map ?chunk [0 ..< k]))" by (rule e2)
  also have "\<dots>
      = concat (map (\<lambda>j. map (\<lambda>i. take v (drop ((j * n + i) * v) xs)) [0 ..< n - 1]) [0 ..< k])"
    by (simp only: e3)
  finally show ?thesis by (simp add: map_concat comp_def)
qed

lemma shifted_targets:
  assumes "\<forall>b \<in> set batch. length b = n"
  shows "concat (map (drop 1) (batches n (concat batch)))
    = map (\<lambda>(j, i). batch ! j ! (i + 1))
        (concat (map (\<lambda>j. map (Pair j) [0 ..< n - 1]) [0 ..< length batch]))"
proof (cases "n = 0")
  case True
  with assms have "concat batch = []" by simp
  with True show ?thesis by simp
next
  case False
  with assms have "batches n (concat batch) = batch" by (intro batches_concat_uniform) simp_all
  moreover have "map (drop 1) batch
      = map (\<lambda>j. map (\<lambda>i. batch ! j ! (i + 1)) [0 ..< n - 1]) [0 ..< length batch]"
  proof (rule nth_equalityI)
    show "length (map (drop 1) batch)
        = length (map (\<lambda>j. map (\<lambda>i. batch ! j ! (i + 1)) [0 ..< n - 1]) [0 ..< length batch])"
      by simp
  next
    fix j assume "j < length (map (drop 1) batch)"
    then have j: "j < length batch" by simp
    with assms have "length (batch ! j) = n" by simp
    then have "drop 1 (batch ! j) = map (\<lambda>i. batch ! j ! (i + 1)) [0 ..< n - 1]"
      by (intro nth_equalityI) (simp_all add: add.commute)
    with j show "map (drop 1) batch ! j
        = map (\<lambda>j. map (\<lambda>i. batch ! j ! (i + 1)) [0 ..< n - 1]) [0 ..< length batch] ! j"
      by simp
  qed
  ultimately show ?thesis by (simp add: map_concat comp_def)
qed

lemma scored_positions_uniform:
  assumes "\<forall>b \<in> set batch. length b = n"
  shows "scored_positions batch
    = filter (\<lambda>(j, i). batch ! j ! (i + 1) \<noteq> - 1)
        (concat (map (\<lambda>j. map (Pair j) [0 ..< n - 1]) [0 ..< length batch]))"
proof -
  have "map (\<lambda>j. map (Pair j) [0 ..< length (batch ! j) - 1]) [0 ..< length batch]
      = map (\<lambda>j. map (Pair j) [0 ..< n - 1]) [0 ..< length batch]"
    using assms by (intro map_cong [OF refl]) simp
  then show ?thesis by (simp only: scored_positions_def)
qed

lemma positions_member:
  "(j, i) \<in> set (concat (map (\<lambda>j. map (Pair j) [0 ..< m]) [0 ..< k])) \<longleftrightarrow> j < k \<and> i < m"
  by (auto simp: image_iff)

section \<open>The loss of a batch (C9)\<close>

lemma zip_map_same: "zip (map f xs) (map g xs) = map (\<lambda>x. (f x, g x)) xs"
  by (induction xs) simp_all

lemma nll_row:
  assumes "off + v \<le> length xs" and "t < v"
  shows "nll (take v (drop off xs)) t
    = ln (\<Sum>c\<leftarrow>[0 ..< v]. exp (xs ! (off + c))) - xs ! (off + t)"
proof -
  have "take v (drop off xs) = map (\<lambda>c. xs ! (off + c)) [0 ..< v]"
    using assms(1) by (rule take_drop_nth)
  with assms(2) show ?thesis by (simp add: nll_def comp_def)
qed

text \<open>What \<^verbatim>\<open>CrossEntropyLoss\<close> returns for rows and targets that are given position by
  position, when every target that is not ignored is a class index.\<close>

lemma CrossEntropyLoss_positions:
  assumes "\<forall>p \<in> set ps. lab p \<noteq> ignore \<longrightarrow> 0 \<le> lab p \<and> lab p < int (length (row p))"
  shows "CrossEntropyLoss ignore (map row ps) (map lab ps)
    = Inr (let scored = filter (\<lambda>p. lab p \<noteq> ignore) ps
           in if scored = [] then NaN
              else Finite ((\<Sum>p\<leftarrow>scored. nll (row p) (nat (lab p))) / real (length scored)))"
proof -
  let ?scored = "filter (\<lambda>p. lab p \<noteq> ignore) ps"
  have scored: "filter (\<lambda>(r, t). t \<noteq> ignore) (zip (map row ps) (map lab ps))
      = map (\<lambda>p. (row p, lab p)) ?scored"
    by (simp add: zip_map_same filter_map comp_def)
  have valid: "\<not> list_ex (\<lambda>(r, t). t < 0 \<or> int (length r) \<le> t) (map (\<lambda>p. (row p, lab p)) ?scored)"
    using assms by (auto simp: list_ex_iff)
  have total: "(\<Sum>(r, t)\<leftarrow>map (\<lambda>p. (row p, lab p)) ?scored. nll r (nat t))
      = (\<Sum>p\<leftarrow>?scored. nll (row p) (nat (lab p)))"
    by (simp add: comp_def)
  show ?thesis
    unfolding CrossEntropyLoss_def Let_def scored
    using valid total by simp
qed

text \<open>
  C9. Take a batch of blocks of length \<open>n\<close> and logits whose last two axes are the \<open>n\<close>
  positions and the \<open>v\<close> classes, with one such matrix per block of the batch, so that the
  score of class \<open>c\<close> at position \<open>i\<close> of block \<open>j\<close> is the element \<open>(j * n + i) * v + c\<close> of
  the data; let every token of a block after its first be the ignore index -1 or a class.
  Then the loss of lines 138-143 is the mean cross-entropy over the classes of the logits
  at the positions \<open>i\<close> from 0 to \<open>n - 2\<close> against the token at position \<open>i + 1\<close> of the same
  block, over the positions whose token is not the ignore index (NaN when there is none).
\<close>

theorem lm_loss_shifted_cross_entropy:
  assumes "\<forall>b \<in> set batch. length b = n"
    and "shape lm_logits = pre @ [n, v]"
    and "length (data lm_logits) = length batch * (n * v)"
    and "0 < v"
    and "\<forall>b \<in> set batch. \<forall>i. 0 < i \<and> i < n \<longrightarrow> b ! i = - 1 \<or> (0 \<le> b ! i \<and> b ! i < int v)"
  shows "lm_loss lm_logits \<lparr>shape = [length batch, n], data = concat batch\<rparr>
    = Inr (shifted_cross_entropy (\<lambda>j i c. data lm_logits ! ((j * n + i) * v + c)) v batch)"
proof -
  let ?xs = "data lm_logits"
  let ?k = "length batch"
  let ?ps = "concat (map (\<lambda>j. map (Pair j) [0 ..< n - 1]) [0 ..< ?k])"
  let ?row = "\<lambda>(j, i). take v (drop ((j * n + i) * v) ?xs)"
  let ?lab = "\<lambda>(j, i). batch ! j ! (i + 1)"
  let ?logit = "\<lambda>j i c. ?xs ! ((j * n + i) * v + c)"
  have logits: "shift_logits_of lm_logits
      = Inr \<lparr>shape = pre @ [n - 1, v],
             data = concat (map (take ((n - 1) * v)) (batches (n * v) ?xs))\<rparr>"
    by (simp add: shift_logits_of_def assms(2))
  have rows: "view_rows \<lparr>shape = pre @ [n - 1, v],
             data = concat (map (take ((n - 1) * v)) (batches (n * v) ?xs))\<rparr>
      = Inr (map ?row ?ps)"
    using assms(4) by (simp add: view_rows_def shifted_rows [OF assms(4,3)] del: One_nat_def)
  have labels: "shift_labels_of \<lparr>shape = [?k, n], data = concat batch\<rparr>
      = Inr \<lparr>shape = [?k, n - 1], data = map ?lab ?ps\<rparr>"
    by (simp add: shift_labels_of_def shifted_targets [OF assms(1)] del: One_nat_def)
  have position: "j < ?k \<and> i < n - 1" if "(j, i) \<in> set ?ps" for j i
    using that by (simp only: positions_member)
  have fits: "(j * n + i) * v + v \<le> length ?xs" if "j < ?k" "i < n - 1" for j i
  proof -
    from that(2) have "j * n + i + 1 \<le> j * n + n" by simp
    also from that(1) have "\<dots> \<le> ?k * n" by (metis Suc_leI mult_Suc mult_le_mono1 add.commute)
    finally have "(j * n + i + 1) * v \<le> ?k * n * v" by (rule mult_le_mono1)
    then show ?thesis by (simp add: assms(3) algebra_simps)
  qed
  have target: "?lab (j, i) = - 1 \<or> (0 \<le> ?lab (j, i) \<and> ?lab (j, i) < int v)"
    if "j < ?k" "i < n - 1" for j i
  proof -
    from that(1) have "batch ! j \<in> set batch" by simp
    moreover from that(2) have "0 < i + 1 \<and> i + 1 < n" by simp
    ultimately show ?thesis using assms(5) by simp
  qed
  have valid: "\<forall>p \<in> set ?ps. ?lab p \<noteq> - 1 \<longrightarrow> 0 \<le> ?lab p \<and> ?lab p < int (length (?row p))"
  proof (intro ballI impI)
    fix p assume p: "p \<in> set ?ps" and scored: "?lab p \<noteq> - 1"
    obtain j i where ji: "p = (j, i)" by (cases p)
    with p have b: "j < ?k" "i < n - 1" using position by blast+
    from fits [OF b] have "length (?row (j, i)) = v" by simp
    with target [OF b] scored ji show "0 \<le> ?lab p \<and> ?lab p < int (length (?row p))" by simp
  qed
  have "(\<Sum>p\<leftarrow>filter (\<lambda>p. ?lab p \<noteq> - 1) ?ps. nll (?row p) (nat (?lab p)))
      = (\<Sum>(j, i)\<leftarrow>filter (\<lambda>p. ?lab p \<noteq> - 1) ?ps.
            position_cross_entropy ?logit v j i (nat (batch ! j ! (i + 1))))"
  proof (rule arg_cong [where f = sum_list], rule map_cong [OF refl])
    fix p assume "p \<in> set (filter (\<lambda>p. ?lab p \<noteq> - 1) ?ps)"
    then have p: "p \<in> set ?ps" and scored: "?lab p \<noteq> - 1" by simp_all
    obtain j i where ji: "p = (j, i)" by (cases p)
    with p have b: "j < ?k" "i < n - 1" using position by blast+
    from target [OF b] scored ji have "0 \<le> batch ! j ! (i + 1) \<and> batch ! j ! (i + 1) < int v"
      by simp
    then have t: "nat (batch ! j ! (i + 1)) < v" by linarith
    from nll_row [OF fits [OF b] t]
    show "nll (?row p) (nat (?lab p))
        = (case p of (j, i) \<Rightarrow> position_cross_entropy ?logit v j i (nat (batch ! j ! (i + 1))))"
      by (simp add: ji position_cross_entropy_def)
  qed
  moreover have "filter (\<lambda>p. ?lab p \<noteq> - 1) ?ps = scored_positions batch"
    unfolding scored_positions_uniform [OF assms(1)] by (rule filter_cong [OF refl]) auto
  ultimately have "CrossEntropyLoss (- 1) (map ?row ?ps) (map ?lab ?ps)
      = Inr (shifted_cross_entropy ?logit v batch)"
    unfolding CrossEntropyLoss_positions [OF valid] shifted_cross_entropy_def Let_def
    by simp
  then show ?thesis by (simp add: lm_loss_def logits rows labels del: One_nat_def)
qed

theorem lm_loss_shifted_cross_entropy_witness:
  "lm_loss \<lparr>shape = [1, 1, 3, 2], data = [0, 0, 0, 0, 0, 0]\<rparr>
     \<lparr>shape = [1, 3], data = [0, 1, - 1]\<rparr> = Inr (Finite (ln 2))"
proof -
  let ?logits = "\<lparr>shape = [1, 1, 3, 2], data = [0, 0, 0, 0, 0, 0 :: real]\<rparr>"
  let ?batch = "[[0, 1, - 1 :: int]]"
  have blocks: "\<forall>b \<in> set ?batch. length b = 3" by simp
  have axes: "shape ?logits = [1, 1] @ [3, 2]" by simp
  have size: "length (data ?logits) = length ?batch * (3 * 2)" by simp
  have classes: "(0::nat) < 2" by simp
  have tokens: "\<forall>b \<in> set ?batch. \<forall>i. 0 < i \<and> i < 3
      \<longrightarrow> b ! i = - 1 \<or> (0 \<le> b ! i \<and> b ! i < int 2)"
  proof (intro ballI allI impI)
    fix b i assume "b \<in> set ?batch" and "0 < i \<and> i < (3::nat)"
    then have "b = [0, 1, - 1]" and "i = 1 \<or> i = 2" by auto
    then show "b ! i = - 1 \<or> (0 \<le> b ! i \<and> b ! i < int 2)" by auto
  qed
  have positions: "scored_positions ?batch = [(0, 0)]"
    by (simp add: scored_positions_def upt_rec)
  have loss: "shifted_cross_entropy (\<lambda>j i c. [0, 0, 0, 0, 0, 0 :: real] ! ((j * 3 + i) * 2 + c)) 2
      ?batch = Finite (ln 2)"
    by (simp add: shifted_cross_entropy_def positions position_cross_entropy_def upt_rec)
  have "lm_loss ?logits \<lparr>shape = [length ?batch, 3], data = concat ?batch\<rparr>
      = Inr (shifted_cross_entropy (\<lambda>j i c. data ?logits ! ((j * 3 + i) * 2 + c)) 2 ?batch)"
    using blocks axes size classes tokens by (rule lm_loss_shifted_cross_entropy)
  also have "data ?logits = [0, 0, 0, 0, 0, 0]" by simp
  finally have "lm_loss ?logits \<lparr>shape = [length ?batch, 3], data = concat ?batch\<rparr>
      = Inr (Finite (ln 2))"
    by (simp only: loss)
  then show ?thesis by simp
qed

end
